theory Spec2Isabelle
  imports Complex_Main "HOL-Library.Multiset" "HOL-Library.Log_Nat"
begin

text \<open>
  A shallow embedding of the container library of \<^verbatim>\<open>Vector.h\<close>, \<^verbatim>\<open>ForwardList.h\<close> and
  \<^verbatim>\<open>HashMap.h\<close>. Mutation is explicit state passing, every allocation takes its address
  from an allocator that is passed along, and every exception or undefined behaviour
  of the source is a value of the model.
\<close>

section \<open>Faults\<close>

text \<open>
  The only error the library reports is the \<^verbatim>\<open>out_of_range\<close> exception of
  \<^verbatim>\<open>Vector::at\<close>. Every other failure of the C++ source is undefined behaviour; the
  model makes each of them a value, so that a function of the model either returns
  \<open>Inr\<close> of its result or \<open>Inl\<close> of the fault it runs into.
\<close>

datatype error =
    OutOfRange       \<comment> \<open>\<^verbatim>\<open>throw out_of_range(...)\<close> in \<^verbatim>\<open>Vector::at\<close>\<close>
  | NullDeref        \<comment> \<open>a read through a null pointer\<close>
  | OutOfBounds      \<comment> \<open>a read outside the allocated buffer of a Vector\<close>
  | DivByZero        \<comment> \<open>\<^verbatim>\<open>%\<close> with a zero right operand\<close>
  | FloatToSize      \<comment> \<open>a float that is not in the range of \<^verbatim>\<open>size_t\<close> cast to it\<close>
  | Dangling         \<comment> \<open>a read through a pointer to released memory or to no node of the structure\<close>
  | Uninitialised    \<comment> \<open>a read of a slot of a new buffer that was never written\<close>
  | NonTermination   \<comment> \<open>a loop that never exits\<close>

definition bind_err :: "error + 'a \<Rightarrow> ('a \<Rightarrow> error + 'b) \<Rightarrow> error + 'b" where
  "bind_err r f = (case r of Inl e \<Rightarrow> Inl e | Inr x \<Rightarrow> f x)"

section \<open>Addresses and allocation\<close>

text \<open>
  A pointer is \<open>addr option\<close>, \<open>None\<close> being the null pointer. \<^verbatim>\<open>new\<close> hands out the
  addresses in turn, so an address it returns differs from every address returned
  before. Memory exhaustion is not modelled.
\<close>

type_synonym addr = nat

type_synonym heap = nat

definition alloc :: "heap \<Rightarrow> addr \<times> heap" where
  "alloc hp = (hp, Suc hp)"

section \<open>\<^verbatim>\<open>UnorderedMap::nextPrime\<close> (HashMap.h, lines 393-408)\<close>

text \<open>
  \<^verbatim>\<open>size_t\<close> is taken to be 64 bits wide and \<^verbatim>\<open>unsigned\<close> 32 bits wide (the LP64
  data model); both are natural numbers with the wrap-around of \<^verbatim>\<open>++\<close> written out.
\<close>

definition SIZE_MAX :: nat where
  "SIZE_MAX = 2 ^ 64 - 1"

definition size_incr :: "nat \<Rightarrow> nat" where
  "size_incr n = (n + 1) mod 2 ^ 64"

definition size_decr :: "nat \<Rightarrow> nat" where
  "size_decr n = (n + 2 ^ 64 - 1) mod 2 ^ 64"

definition unsigned_incr :: "nat \<Rightarrow> nat" where
  "unsigned_incr i = (i + 1) mod 2 ^ 32"

text \<open>
  The inner \<^verbatim>\<open>for(unsigned i = 2; i <= (num/2); ++i)\<close> loop, entered at counter \<open>i\<close>:
  \<open>Inr True\<close> when it breaks on a divisor, \<open>Inr False\<close> when the counter passes
  \<open>num/2\<close>, and a division by zero when the 32-bit counter has wrapped to 0.
\<close>

function nextPrime_for :: "nat \<Rightarrow> nat \<Rightarrow> error + bool" where
  "nextPrime_for num i =
     (if i \<le> num div 2 then
        (if i = 0 then Inl DivByZero
         else if num mod i = 0 then Inr True
         else nextPrime_for num (unsigned_incr i))
      else Inr False)"
  by pat_completeness auto
termination
  by (relation "measure (\<lambda>(num, i). if i = 0 then 0 else if i < 2 ^ 32 then 2 ^ 32 + 1 - i else 2 ^ 32 + 2)")
     (auto simp: unsigned_incr_def mod_Suc)

text \<open>
  The outer \<^verbatim>\<open>while(!isPrime)\<close> loop: a candidate with a divisor is incremented
  (\<^verbatim>\<open>num++\<close>, wrapping at \<open>2^64\<close>) and tested again.
\<close>

function nextPrime_while :: "nat \<Rightarrow> error + nat" where
  "nextPrime_while num =
     (case nextPrime_for num 2 of
        Inl e \<Rightarrow> Inl e
      | Inr True \<Rightarrow> nextPrime_while (size_incr num)
      | Inr False \<Rightarrow> Inr num)"
  by pat_completeness auto
termination
proof (relation "measure (\<lambda>num. if num = 0 then 0 else if num < 2 ^ 64 then 2 ^ 64 + 1 - num else 2 ^ 64 + 2)", goal_cases)
  case 1
  show ?case by simp
next
  case (2 num b)
  then have "num \<noteq> 0"
    by (cases "num = 0") (simp_all add: nextPrime_for.simps [of 0 2])
  then show ?case
    by (auto simp: size_incr_def mod_Suc)
qed

definition nextPrime :: "nat \<Rightarrow> error + nat" where
  "nextPrime num = (if num \<le> 1 then Inr 2 else nextPrime_while num)"

text \<open>The property the spec asks of the result: a prime number.\<close>

definition is_prime :: "nat \<Rightarrow> bool" where
  "is_prime p \<longleftrightarrow> 1 < p \<and> (\<forall>d \<in> {2..<p}. \<not> d dvd p)"

section \<open>\<^verbatim>\<open>Vector\<close> (Vector.h)\<close>

text \<open>
  The fields of the class are \<open>v_data\<close> (\<^verbatim>\<open>_data\<close>), \<open>v_currentSize\<close> and
  \<open>v_currentCapacity\<close>. \<open>v_cells\<close> is the content of the buffer \<^verbatim>\<open>_data\<close> points to, one
  entry for each allocated slot; a Vector owns its buffer, so the content is kept with
  the pointer.
\<close>

record 'a Vector =
  v_data :: "addr option"
  v_cells :: "'a list"
  v_currentSize :: nat
  v_currentCapacity :: nat

text \<open>\<^verbatim>\<open>Vector() = default\<close>\<close>

definition Vector_default :: "'a Vector" where
  "Vector_default = \<lparr>v_data = None, v_cells = [], v_currentSize = 0, v_currentCapacity = 0\<rparr>"

text \<open>
  \<^verbatim>\<open>Vector(const size_t size, const T& info)\<close> (lines 137-147). Every slot is assigned
  \<open>info\<close>; the constructor is used at element types whose assignment leaves the slot with
  the value assigned (a chain that is assigned the empty chain is the empty chain).
\<close>

definition Vector_n :: "heap \<Rightarrow> nat \<Rightarrow> 'a \<Rightarrow> 'a Vector \<times> heap" where
  "Vector_n hp sz info =
     (if sz = 0 then
        (\<lparr>v_data = None, v_cells = [], v_currentSize = sz, v_currentCapacity = sz\<rparr>, hp)
      else
        (let (a, hp') = alloc hp in
         (\<lparr>v_data = Some a, v_cells = replicate sz info, v_currentSize = sz,
            v_currentCapacity = sz\<rparr>, hp')))"





text \<open>
  The same operator in a self-assignment \<^verbatim>\<open>v = v\<close>, where \<open>other\<close> is \<^verbatim>\<open>*this\<close>: the
  size is kept, the buffer is released and replaced with a new one of \<^verbatim>\<open>size()\<close> slots,
  and the loop assigns each new slot to itself. \<open>fresh\<close> is the content of a slot that
  \<^verbatim>\<open>new T[n]\<close> has made and that was assigned to itself; it is \<open>None\<close> for an element
  type that \<^verbatim>\<open>new T[n]\<close> leaves uninitialised, where the loop reads a slot that was never
  written.
\<close>

definition Vector_assign_self :: "'a option \<Rightarrow> heap \<Rightarrow> 'a Vector \<Rightarrow> error + 'a Vector \<times> heap" where
  "Vector_assign_self fresh hp this =
     (let n = v_currentSize this in
      if n = 0 then
        Inr (\<lparr>v_data = None, v_cells = [], v_currentSize = n, v_currentCapacity = n\<rparr>, hp)
      else
        (case fresh of
           None \<Rightarrow> Inl Uninitialised
         | Some d \<Rightarrow>
             (let (a, hp1) = alloc hp in
              Inr (\<lparr>v_data = Some a, v_cells = replicate n d, v_currentSize = n,
                     v_currentCapacity = n\<rparr>, hp1))))"

text \<open>
  \<^verbatim>\<open>Vector& operator=(Vector&& other)\<close> (lines 193-207): \<^verbatim>\<open>*this\<close> takes the buffer of
  \<open>other\<close>, which is left empty.
\<close>

definition Vector_move_assign :: "'a Vector \<Rightarrow> 'a Vector \<Rightarrow> 'a Vector \<times> 'a Vector" where
  "Vector_move_assign this other =
     (\<lparr>v_data = v_data other, v_cells = v_cells other, v_currentSize = v_currentSize other,
        v_currentCapacity = v_currentCapacity other\<rparr>,
      \<lparr>v_data = None, v_cells = [], v_currentSize = 0, v_currentCapacity = 0\<rparr>)"

text \<open>\<^verbatim>\<open>operator[]\<close> (line 53), \<^verbatim>\<open>_data[ndx]\<close> with no check.\<close>

definition Vector_index :: "'a Vector \<Rightarrow> nat \<Rightarrow> error + 'a" where
  "Vector_index v ndx =
     (if v_data v = None then Inl NullDeref
      else if ndx < length (v_cells v) then Inr (v_cells v ! ndx)
      else Inl OutOfBounds)"

text \<open>
  \<^verbatim>\<open>at\<close> (lines 210-216). \<^verbatim>\<open>currentSize - 1\<close> is a subtraction of \<^verbatim>\<open>size_t\<close>, which
  wraps.
\<close>

definition Vector_at :: "'a Vector \<Rightarrow> nat \<Rightarrow> error + 'a" where
  "Vector_at v index =
     (if index > size_decr (v_currentSize v) then Inl OutOfRange
      else Vector_index v index)"

definition Vector_size :: "'a Vector \<Rightarrow> nat" where
  "Vector_size v = v_currentSize v"

text \<open>\<^verbatim>\<open>void clear() noexcept { currentSize = 0; }\<close> (line 77)\<close>

definition Vector_clear :: "'a Vector \<Rightarrow> 'a Vector" where
  "Vector_clear v = v\<lparr>v_currentSize := 0\<rparr>"



section \<open>\<^verbatim>\<open>ForwardList\<close> (ForwardList.h)\<close>

text \<open>
  A chain of nodes is the list of its nodes in link order, each with the address it was
  allocated at: \<^verbatim>\<open>head\<close> is the address of the first node (null for the empty chain),
  and the \<^verbatim>\<open>next\<close> pointer of a node is the address of the node after it (null for the
  last one). \<open>l_size\<close> is the field \<^verbatim>\<open>_size\<close>. An iterator is the pointer \<^verbatim>\<open>current\<close>.
\<close>

type_synonym 'a node = "addr \<times> 'a"

record 'a ForwardList =
  l_nodes :: "'a node list"
  l_size :: nat

definition ForwardList_default :: "'a ForwardList" where
  "ForwardList_default = \<lparr>l_nodes = [], l_size = 0\<rparr>"

definition head :: "'a node list \<Rightarrow> addr option" where
  "head ns = (case ns of [] \<Rightarrow> None | n # _ \<Rightarrow> Some (fst n))"

definition ForwardList_begin :: "'a ForwardList \<Rightarrow> addr option" where
  "ForwardList_begin l = head (l_nodes l)"

definition ForwardList_end :: "'a ForwardList \<Rightarrow> addr option" where
  "ForwardList_end l = None"

definition ForwardList_empty :: "'a ForwardList \<Rightarrow> bool" where
  "ForwardList_empty l \<longleftrightarrow> head (l_nodes l) = None"

definition ForwardList_front :: "'a ForwardList \<Rightarrow> error + 'a" where
  "ForwardList_front l = (case l_nodes l of [] \<Rightarrow> Inl NullDeref | n # _ \<Rightarrow> Inr (snd n))"

text \<open>\<^verbatim>\<open>push_front\<close> (lines 222-235)\<close>

definition ForwardList_push_front :: "heap \<Rightarrow> 'a \<Rightarrow> 'a ForwardList \<Rightarrow> 'a ForwardList \<times> heap" where
  "ForwardList_push_front hp info l =
     (let (newNode, hp') = alloc hp in
      (\<lparr>l_nodes = (newNode, info) # l_nodes l, l_size = size_incr (l_size l)\<rparr>, hp'))"

text \<open>
  \<^verbatim>\<open>ForwardList& operator=(const ForwardList& rhs)\<close> (lines 152-166), for \<open>rhs\<close> an
  object other than \<^verbatim>\<open>*this\<close>: a chain that is not empty is cleared, then the elements of
  \<open>rhs\<close> are pushed to the front one after the other, from the head of \<open>rhs\<close> on. The
  chain that results has the elements of \<open>rhs\<close> in reverse order, in new nodes.
\<close>

fun push_front_all :: "heap \<Rightarrow> 'a node list \<Rightarrow> 'a ForwardList \<Rightarrow> 'a ForwardList \<times> heap" where
  "push_front_all hp [] l = (l, hp)"
| "push_front_all hp (n # ns) l =
     (let (l', hp') = ForwardList_push_front hp (snd n) l in push_front_all hp' ns l')"

definition ForwardList_assign :: "heap \<Rightarrow> 'a ForwardList \<Rightarrow> 'a ForwardList \<Rightarrow> 'a ForwardList \<times> heap" where
  "ForwardList_assign hp this rhs =
     push_front_all hp (l_nodes rhs)
       (if ForwardList_empty this then this else \<lparr>l_nodes = [], l_size = 0\<rparr>)"

text \<open>
  \<^verbatim>\<open>remove\<close> (lines 248-258). \<open>remove_while val cur rest sz\<close> is the loop with the
  iterator at node \<open>cur\<close>, \<open>rest\<close> the chain behind \<open>cur\<close> and \<open>sz\<close> the value of
  \<^verbatim>\<open>_size\<close>; it returns the chain from \<open>cur\<close> on and \<^verbatim>\<open>_size\<close> when the loop exits.
  \<^verbatim>\<open>erase_after\<close> (lines 209-219) unlinks the node behind the iterator and decrements
  \<^verbatim>\<open>_size\<close>. The loop is entered with the iterator at \<^verbatim>\<open>cbegin()\<close>, and reads
  \<^verbatim>\<open>itr.current->next\<close> first.
\<close>

fun remove_while :: "'a \<Rightarrow> 'a node \<Rightarrow> 'a node list \<Rightarrow> nat \<Rightarrow> 'a node list \<times> nat" where
  "remove_while val cur [] sz = ([cur], sz)"
| "remove_while val cur (nx # rest) sz =
     (if snd nx = val then remove_while val cur rest (size_decr sz)
      else (let (ns, sz') = remove_while val nx rest sz in (cur # ns, sz')))"

definition ForwardList_remove :: "'a \<Rightarrow> 'a ForwardList \<Rightarrow> error + 'a ForwardList" where
  "ForwardList_remove val l =
     (case l_nodes l of
        [] \<Rightarrow> Inl NullDeref
      | cur # rest \<Rightarrow>
          (let (ns, sz) = remove_while val cur rest (l_size l) in
           Inr \<lparr>l_nodes = ns, l_size = sz\<rparr>))"

section \<open>\<^verbatim>\<open>float\<close> arithmetic of the load factor\<close>

text \<open>
  The load factor is computed in \<^verbatim>\<open>float\<close>, which is taken to be the binary32 format of
  IEEE 754: every operation is evaluated in \<^verbatim>\<open>float\<close> and rounds its exact result to the
  nearest number of the format, a tie to the one with the even significand, and the
  conversion of a \<^verbatim>\<open>size_t\<close> rounds in the same way (as GCC and Clang do on x86-64).
  A value of the type is a finite number, the negative zero, an infinity or a NaN;
  \<open>Finite 0\<close> is the positive zero.
\<close>

datatype flt = Finite rat | NegZero | PosInf | NegInf | NaN

text \<open>
  \<open>ilog2 a\<close> is the exponent of the power of 2 at or below \<open>a\<close>, for \<open>a\<close> positive.
  \<open>rne\<close> rounds to the nearest integer, a tie to the even one. The numbers of binary32
  between \<open>2^k\<close> and \<open>2^(k+1)\<close> are the multiples of \<open>2^(k-23)\<close>, and the ones below
  \<open>2^(-126)\<close> are the multiples of \<open>2^(-149)\<close>: \<open>ulp_exp a\<close> is the exponent of that unit
  at \<open>a\<close>, and \<open>fl_mag a\<close> the multiple of the unit nearest to \<open>a\<close>, for \<open>a\<close> not negative.
  A result of \<open>2^128\<close> or more overflows to an infinity, and a negative number that
  rounds to zero is the negative zero.
\<close>

definition ilog2 :: "rat \<Rightarrow> int" where
  "ilog2 a = (if 1 \<le> a then bitlen \<lfloor>a\<rfloor> - 1 else - bitlen (\<lceil>1 / a\<rceil> - 1))"

definition rne :: "rat \<Rightarrow> int" where
  "rne x =
     (let f = \<lfloor>x\<rfloor>; d = x - of_int f in
      if d < 1 / 2 then f else if 1 / 2 < d then f + 1 else if even f then f else f + 1)"

definition ulp_exp :: "rat \<Rightarrow> int" where
  "ulp_exp a = max (ilog2 a - 23) (- 149)"

definition fl_mag :: "rat \<Rightarrow> rat" where
  "fl_mag a = (if a = 0 then 0 else of_int (rne (a / 2 powi ulp_exp a)) * 2 powi ulp_exp a)"

definition round32 :: "rat \<Rightarrow> flt" where
  "round32 y =
     (if 0 \<le> y then (if fl_mag y < 2 ^ 128 then Finite (fl_mag y) else PosInf)
      else if 2 ^ 128 \<le> fl_mag (- y) then NegInf
      else if fl_mag (- y) = 0 then NegZero
      else Finite (- fl_mag (- y)))"

text \<open>The sign bit, the zeros, the infinities, and the number a finite value stands for.\<close>

fun flt_sign :: "flt \<Rightarrow> bool" where
  "flt_sign (Finite r) \<longleftrightarrow> r < 0"
| "flt_sign NegZero \<longleftrightarrow> True"
| "flt_sign PosInf \<longleftrightarrow> False"
| "flt_sign NegInf \<longleftrightarrow> True"
| "flt_sign NaN \<longleftrightarrow> False"

definition flt_is_zero :: "flt \<Rightarrow> bool" where
  "flt_is_zero a \<longleftrightarrow> a = Finite 0 \<or> a = NegZero"

definition flt_is_inf :: "flt \<Rightarrow> bool" where
  "flt_is_inf a \<longleftrightarrow> a = PosInf \<or> a = NegInf"

fun flt_val :: "flt \<Rightarrow> rat" where
  "flt_val (Finite r) = r"
| "flt_val NegZero = 0"
| "flt_val PosInf = 0"
| "flt_val NegInf = 0"
| "flt_val NaN = 0"

text \<open>
  Division and multiplication: a NaN operand, \<open>\<infinity>/\<infinity>\<close>, \<open>0/0\<close> and \<open>0\<cdot>\<infinity>\<close> give a NaN; an
  infinite or a zero result has the sign that the signs of the operands give; any
  other result is the exact one, rounded.
\<close>

definition flt_div :: "flt \<Rightarrow> flt \<Rightarrow> flt" where
  "flt_div a b =
     (if a = NaN \<or> b = NaN \<or> (flt_is_inf a \<and> flt_is_inf b) \<or> (flt_is_zero a \<and> flt_is_zero b)
      then NaN
      else if flt_is_inf a \<or> flt_is_zero b then (if flt_sign a = flt_sign b then PosInf else NegInf)
      else if flt_is_zero a \<or> flt_is_inf b then (if flt_sign a = flt_sign b then Finite 0 else NegZero)
      else round32 (flt_val a / flt_val b))"

definition flt_mul :: "flt \<Rightarrow> flt \<Rightarrow> flt" where
  "flt_mul a b =
     (if a = NaN \<or> b = NaN \<or> (flt_is_inf a \<and> flt_is_zero b) \<or> (flt_is_zero a \<and> flt_is_inf b)
      then NaN
      else if flt_is_inf a \<or> flt_is_inf b then (if flt_sign a = flt_sign b then PosInf else NegInf)
      else if flt_is_zero a \<or> flt_is_zero b then (if flt_sign a = flt_sign b then Finite 0 else NegZero)
      else round32 (flt_val a * flt_val b))"

text \<open>
  The comparisons \<^verbatim>\<open><\<close>, \<^verbatim>\<open><=\<close> and \<^verbatim>\<open>>=\<close>: false when an operand is a NaN; the two zeros
  are equal.
\<close>

definition flt_less :: "flt \<Rightarrow> flt \<Rightarrow> bool" where
  "flt_less a b \<longleftrightarrow>
     a \<noteq> NaN \<and> b \<noteq> NaN \<and> a \<noteq> PosInf \<and> b \<noteq> NegInf \<and>
     (a = NegInf \<or> b = PosInf \<or> flt_val a < flt_val b)"

definition flt_le :: "flt \<Rightarrow> flt \<Rightarrow> bool" where
  "flt_le a b \<longleftrightarrow> a \<noteq> NaN \<and> b \<noteq> NaN \<and> \<not> flt_less b a"

definition flt_ge :: "flt \<Rightarrow> flt \<Rightarrow> bool" where
  "flt_ge a b \<longleftrightarrow> flt_le b a"

text \<open>The conversion of a \<^verbatim>\<open>size_t\<close> to \<^verbatim>\<open>float\<close>.\<close>

definition float_of_size :: "nat \<Rightarrow> flt" where
  "float_of_size n = round32 (of_nat n)"

text \<open>The cast \<^verbatim>\<open>(size_t)\<close> truncates; it is undefined outside the range of \<^verbatim>\<open>size_t\<close>.\<close>

fun flt_to_size :: "flt \<Rightarrow> error + nat" where
  "flt_to_size (Finite x) = (if - 1 < x \<and> x < 2 ^ 64 then Inr (nat \<lfloor>x\<rfloor>) else Inl FloatToSize)"
| "flt_to_size NegZero = Inr 0"
| "flt_to_size PosInf = Inl FloatToSize"
| "flt_to_size NegInf = Inl FloatToSize"
| "flt_to_size NaN = Inl FloatToSize"

text \<open>
  The magnitudes on the grid of binary32: the multiples \<open>K \<cdot> 2^e\<close> of a unit that is at least
  \<open>2^(-149)\<close> with \<open>K\<close> at most \<open>2^24\<close>. Those below \<open>2^128\<close> are the magnitudes of the
  finite numbers of the format.
\<close>

definition float_mag :: "rat \<Rightarrow> bool" where
  "float_mag r \<longleftrightarrow> (\<exists>K e. r = of_int K * 2 powi e \<and> 0 \<le> K \<and> K \<le> 2 ^ 24 \<and> - 149 \<le> e)"

section \<open>\<^verbatim>\<open>UnorderedMap\<close> (HashMap.h)\<close>

text \<open>
  The fields are \<open>m_A\<close> (\<^verbatim>\<open>A\<close>, the Vector of chains), \<open>m_h\<close> (\<^verbatim>\<open>h\<close>, the hash object),
  \<open>m_currentSize\<close> and \<open>m_max_load_factor\<close>. A \<^verbatim>\<open>Pair\<close> is a pair of HOL.
  A \<^verbatim>\<open>map_iterator\<close> holds \<open>it_bucket\<close>, the position \<^verbatim>\<open>A.begin() + ndx\<close> in the bucket
  array as the offset \<open>ndx\<close>, and \<open>it_pos\<close>, the pointer into the chain.
\<close>

record ('k, 'v) UnorderedMap =
  m_A :: "('k \<times> 'v) ForwardList Vector"
  m_h :: "'k \<Rightarrow> nat"
  m_currentSize :: nat
  m_max_load_factor :: flt

record map_iterator =
  it_bucket :: nat
  it_pos :: "addr option"

definition make_iterator :: "nat \<Rightarrow> addr option \<Rightarrow> map_iterator" where
  "make_iterator ndx itr = \<lparr>it_bucket = ndx, it_pos = itr\<rparr>"

text \<open>
  \<^verbatim>\<open>UnorderedMap(size_t n, const Hash& hs)\<close> (lines 94-98); every slot of the bucket array is
  an empty chain. \<^verbatim>\<open>UnorderedMap()\<close> is \<^verbatim>\<open>UnorderedMap(1)\<close>.
\<close>

definition UnorderedMap_n :: "heap \<Rightarrow> nat \<Rightarrow> ('k \<Rightarrow> nat) \<Rightarrow> error + ('k, 'v) UnorderedMap \<times> heap" where
  "UnorderedMap_n hp n hs =
     bind_err (nextPrime n) (\<lambda>p.
       let (a, hp') = Vector_n hp p ForwardList_default in
       Inr (\<lparr>m_A = a, m_h = hs, m_currentSize = 0, m_max_load_factor = Finite 1\<rparr>, hp'))"

definition UnorderedMap_default :: "heap \<Rightarrow> ('k \<Rightarrow> nat) \<Rightarrow> error + ('k, 'v) UnorderedMap \<times> heap" where
  "UnorderedMap_default hp hs = UnorderedMap_n hp 1 hs"

definition bucket_count :: "('k, 'v) UnorderedMap \<Rightarrow> nat" where
  "bucket_count m = Vector_size (m_A m)"

definition UnorderedMap_size :: "('k, 'v) UnorderedMap \<Rightarrow> nat" where
  "UnorderedMap_size m = m_currentSize m"

text \<open>
  \<^verbatim>\<open>load_factor()\<close> (line 138) is \<^verbatim>\<open>(float)currentSize / (float)bucket_count()\<close>;
  \<^verbatim>\<open>max_load_factor(float ml)\<close> (line 140) stores any \<^verbatim>\<open>float\<close>.
\<close>

definition load_factor :: "('k, 'v) UnorderedMap \<Rightarrow> flt" where
  "load_factor m = flt_div (float_of_size (m_currentSize m)) (float_of_size (bucket_count m))"


text \<open>\<^verbatim>\<open>void clear() noexcept { A.clear(); }\<close> (line 116)\<close>

definition UnorderedMap_clear :: "('k, 'v) UnorderedMap \<Rightarrow> ('k, 'v) UnorderedMap" where
  "UnorderedMap_clear m = m\<lparr>m_A := Vector_clear (m_A m)\<rparr>"

text \<open>\<^verbatim>\<open>end()\<close> and \<^verbatim>\<open>cend()\<close> (lines 109-111), \<^verbatim>\<open>begin()\<close> (line 106)\<close>

definition UnorderedMap_end :: "('k, 'v) UnorderedMap \<Rightarrow> map_iterator" where
  "UnorderedMap_end m = make_iterator (bucket_count m) None"

definition UnorderedMap_begin :: "('k, 'v) UnorderedMap \<Rightarrow> error + map_iterator" where
  "UnorderedMap_begin m =
     bind_err (Vector_index (m_A m) 0) (\<lambda>l. Inr (make_iterator 0 (ForwardList_begin l)))"

subsection \<open>\<^verbatim>\<open>rehash\<close> (lines 374-390)\<close>

text \<open>
  The loop \<^verbatim>\<open>while(n < currentSize / max_load_factor())\<close> with its body
  \<^verbatim>\<open>n = (size_t)(currentSize / max_load_factor() * 2)\<close>, \<open>x\<close> being the quotient, which is
  the same \<^verbatim>\<open>float\<close> each time: \<open>n\<close> is converted to \<^verbatim>\<open>float\<close> for the comparison, and
  the product with 2 is a product of \<^verbatim>\<open>float\<close>. \<open>None\<close> when the loop never exits.
\<close>

partial_function (option) rehash_while :: "flt \<Rightarrow> nat \<Rightarrow> (error + nat) option" where
  "rehash_while x n =
     (if flt_less (float_of_size n) x then
        (case flt_to_size (flt_mul x (Finite 2)) of
           Inl e \<Rightarrow> Some (Inl e)
         | Inr n' \<Rightarrow> rehash_while x n')
      else Some (Inr n))"

declare rehash_while.simps [code]

text \<open>
  The inner loop over one old chain, from \<^verbatim>\<open>A[i].begin()\<close> to \<^verbatim>\<open>A[i].end()\<close>: each pair is
  pushed to the front of the chain \<^verbatim>\<open>h(itr->first) % temp.size()\<close> of \<open>temp\<close>.
\<close>

fun rehash_chain ::
  "('k \<Rightarrow> nat) \<Rightarrow> ('k \<times> 'v) node list \<Rightarrow> ('k \<times> 'v) ForwardList Vector \<times> heap \<Rightarrow>
   error + ('k \<times> 'v) ForwardList Vector \<times> heap" where
  "rehash_chain hs [] (temp, hp) = Inr (temp, hp)"
| "rehash_chain hs (n # ns) (temp, hp) =
     (if Vector_size temp = 0 then Inl DivByZero
      else
        (let index = hs (fst (snd n)) mod Vector_size temp in
         bind_err (Vector_index temp index) (\<lambda>l.
           let (l', hp') = ForwardList_push_front hp (snd n) l in
           rehash_chain hs ns (temp\<lparr>v_cells := (v_cells temp)[index := l']\<rparr>, hp'))))"

text \<open>The outer loop \<^verbatim>\<open>for(size_t i = 0; i < A.size(); i++)\<close>, over the indices it visits.\<close>

fun rehash_for ::
  "('k \<Rightarrow> nat) \<Rightarrow> ('k \<times> 'v) ForwardList Vector \<Rightarrow> nat list \<Rightarrow>
   ('k \<times> 'v) ForwardList Vector \<times> heap \<Rightarrow> error + ('k \<times> 'v) ForwardList Vector \<times> heap" where
  "rehash_for hs a [] st = Inr st"
| "rehash_for hs a (i # is) st =
     bind_err (Vector_index a i) (\<lambda>l.
       bind_err (rehash_chain hs (l_nodes l) st) (\<lambda>st'. rehash_for hs a is st'))"

definition UnorderedMap_rehash ::
  "heap \<Rightarrow> ('k, 'v) UnorderedMap \<Rightarrow> nat \<Rightarrow> error + ('k, 'v) UnorderedMap \<times> heap" where
  "UnorderedMap_rehash hp m n =
     (let n1 = (if n = 0 then 1 else n) in
      bind_err
        (case rehash_while (flt_div (float_of_size (m_currentSize m)) (m_max_load_factor m)) n1 of
           None \<Rightarrow> Inl NonTermination
         | Some r \<Rightarrow> r) (\<lambda>n2.
      bind_err (nextPrime n2) (\<lambda>p.
        let (temp, hp1) = Vector_n hp p ForwardList_default in
        bind_err (rehash_for (m_h m) (m_A m) [0..<Vector_size (m_A m)] (temp, hp1)) (\<lambda>(temp', hp2).
          Inr (m\<lparr>m_A := fst (Vector_move_assign (m_A m) temp')\<rparr>, hp2)))))"

subsection \<open>\<^verbatim>\<open>find\<close> and \<^verbatim>\<open>count\<close>\<close>

text \<open>
  The \<^verbatim>\<open>const\<close> overload of \<^verbatim>\<open>find\<close> (lines 360-371). Its loop
  \<^verbatim>\<open>while(itr != cend(index))\<close> over the chain returns the address of the first node
  with the key, or null when the chain ends.
\<close>

fun find_const_while :: "'k \<Rightarrow> ('k \<times> 'v) node list \<Rightarrow> addr option" where
  "find_const_while k [] = None"
| "find_const_while k (n # ns) = (if fst (snd n) = k then Some (fst n) else find_const_while k ns)"

definition UnorderedMap_find_const :: "('k, 'v) UnorderedMap \<Rightarrow> 'k \<Rightarrow> error + map_iterator" where
  "UnorderedMap_find_const m k =
     (if bucket_count m = 0 then Inl DivByZero
      else
        (let index = m_h m k mod bucket_count m in
         bind_err (Vector_index (m_A m) index) (\<lambda>l.
           case find_const_while k (l_nodes l) of
             Some a \<Rightarrow> Inr (make_iterator index (Some a))
           | None \<Rightarrow> Inr (UnorderedMap_end m))))"

text \<open>\<^verbatim>\<open>count\<close> (line 128)\<close>

definition UnorderedMap_count :: "('k, 'v) UnorderedMap \<Rightarrow> 'k \<Rightarrow> error + nat" where
  "UnorderedMap_count m k =
     bind_err (UnorderedMap_find_const m k) (\<lambda>it.
       Inr (if it \<noteq> UnorderedMap_end m then 1 else 0))"

text \<open>
  The overload of \<^verbatim>\<open>find\<close> that is not \<^verbatim>\<open>const\<close> (lines 346-357). Its loop is a
  \<^verbatim>\<open>do ... while(itr != end(index))\<close>: the body reads \<^verbatim>\<open>itr->first\<close> before the
  iterator is compared with the end of the chain.
\<close>

fun find_do_while :: "'k \<Rightarrow> ('k \<times> 'v) node list \<Rightarrow> error + addr option" where
  "find_do_while k [] = Inl NullDeref"
| "find_do_while k (n # ns) =
     (if fst (snd n) = k then Inr (Some (fst n))
      else if head ns = None then Inr None
      else find_do_while k ns)"

definition UnorderedMap_find :: "('k, 'v) UnorderedMap \<Rightarrow> 'k \<Rightarrow> error + map_iterator" where
  "UnorderedMap_find m k =
     (if bucket_count m = 0 then Inl DivByZero
      else
        (let index = m_h m k mod bucket_count m in
         bind_err (Vector_index (m_A m) index) (\<lambda>l.
           bind_err (find_do_while k (l_nodes l)) (\<lambda>itr.
             Inr (make_iterator index itr)))))"

subsection \<open>\<^verbatim>\<open>insert\<close> (lines 270-290)\<close>

text \<open>The check of the load factor that \<^verbatim>\<open>insert\<close> and \<^verbatim>\<open>operator[]\<close> start with.\<close>

definition size_mul2 :: "nat \<Rightarrow> nat" where
  "size_mul2 n = (n * 2) mod 2 ^ 64"

definition grow_if_loaded ::
  "heap \<Rightarrow> ('k, 'v) UnorderedMap \<Rightarrow> error + ('k, 'v) UnorderedMap \<times> heap" where
  "grow_if_loaded hp m =
     (if flt_ge (load_factor m) (m_max_load_factor m)
      then UnorderedMap_rehash hp m (size_mul2 (m_currentSize m))
      else Inr (m, hp))"

text \<open>The loop \<^verbatim>\<open>while(itr->first != p.first) ++itr;\<close> from the head of the chain.\<close>

fun insert_while :: "'k \<Rightarrow> ('k \<times> 'v) node list \<Rightarrow> error + addr option" where
  "insert_while k [] = Inl NullDeref"
| "insert_while k (n # ns) = (if fst (snd n) \<noteq> k then insert_while k ns else Inr (Some (fst n)))"

text \<open>
  \<open>itr\<close> is taken from \<^verbatim>\<open>A[index].begin()\<close> before the chain is changed, and is the
  position that is returned.
\<close>

definition UnorderedMap_insert ::
  "heap \<Rightarrow> ('k, 'v) UnorderedMap \<Rightarrow> 'k \<times> 'v \<Rightarrow>
   error + (map_iterator \<times> bool) \<times> ('k, 'v) UnorderedMap \<times> heap" where
  "UnorderedMap_insert hp m p =
     bind_err (grow_if_loaded hp m) (\<lambda>(m1, hp1).
       if bucket_count m1 = 0 then Inl DivByZero
       else
         (let index = m_h m1 (fst p) mod bucket_count m1 in
          bind_err (Vector_index (m_A m1) index) (\<lambda>l.
            let itr = ForwardList_begin l in
            bind_err (UnorderedMap_count m1 (fst p)) (\<lambda>c.
              if c > 0 then
                bind_err (insert_while (fst p) (l_nodes l)) (\<lambda>itr'.
                  Inr ((make_iterator index itr', False), m1, hp1))
              else
                (let (l', hp2) = ForwardList_push_front hp1 p l;
                     m2 = m1\<lparr>m_A := (m_A m1)\<lparr>v_cells := (v_cells (m_A m1))[index := l']\<rparr>,
                            m_currentSize := size_incr (m_currentSize m1)\<rparr>
                 in Inr ((make_iterator index itr, True), m2, hp2))))))"

subsection \<open>\<^verbatim>\<open>operator[]\<close> (lines 316-343)\<close>




subsection \<open>\<^verbatim>\<open>map_iterator\<close>\<close>

text \<open>
  A read through a chain pointer looks the node up in the chains of the bucket array:
  \<open>node_next\<close> is its \<^verbatim>\<open>next\<close> pointer and \<open>node_data\<close> its \<^verbatim>\<open>data\<close>.
\<close>

fun chain_next :: "'a node list \<Rightarrow> addr \<Rightarrow> addr option option" where
  "chain_next [] a = None"
| "chain_next (n # ns) a = (if fst n = a then Some (head ns) else chain_next ns a)"

fun node_next :: "'a ForwardList list \<Rightarrow> addr \<Rightarrow> addr option option" where
  "node_next [] a = None"
| "node_next (l # ls) a = (case chain_next (l_nodes l) a of Some nx \<Rightarrow> Some nx | None \<Rightarrow> node_next ls a)"

definition node_data :: "'a ForwardList list \<Rightarrow> addr \<Rightarrow> 'a option" where
  "node_data ls a = map_of (concat (map l_nodes ls)) a"

text \<open>\<^verbatim>\<open>operator*\<close> (line 170)\<close>

definition map_iterator_deref :: "('k, 'v) UnorderedMap \<Rightarrow> map_iterator \<Rightarrow> error + 'k \<times> 'v" where
  "map_iterator_deref m it =
     (case it_pos it of
        None \<Rightarrow> Inl NullDeref
      | Some a \<Rightarrow> (case node_data (v_cells (m_A m)) a of None \<Rightarrow> Inl Dangling | Some p \<Rightarrow> Inr p))"

text \<open>
  \<^verbatim>\<open>operator++\<close> (lines 411-424): \<^verbatim>\<open>++pos\<close>, then the loop
  \<^verbatim>\<open>while(pos == bucket->end() && bucket != ref.A.end())\<close>, which reads the head of the
  chain at the incremented bucket position, then the final \<^verbatim>\<open>if\<close>.
\<close>

function incr_while ::
  "('k \<times> 'v) ForwardList Vector \<Rightarrow> nat \<Rightarrow> addr option \<Rightarrow> error + nat \<times> addr option" where
  "incr_while a b p =
     (if p = None \<and> b \<noteq> Vector_size a then
        (case Vector_index a (Suc b) of
           Inl e \<Rightarrow> Inl e
         | Inr l \<Rightarrow> incr_while a (Suc b) (ForwardList_begin l))
      else Inr (b, p))"
  by pat_completeness auto
termination
  by (relation "measure (\<lambda>(a, b, p). length (v_cells a) - b)")
     (auto simp: Vector_index_def split: if_splits)

definition map_iterator_incr :: "('k, 'v) UnorderedMap \<Rightarrow> map_iterator \<Rightarrow> error + map_iterator" where
  "map_iterator_incr m it =
     (case it_pos it of
        None \<Rightarrow> Inl NullDeref
      | Some a \<Rightarrow>
          (case node_next (v_cells (m_A m)) a of
             None \<Rightarrow> Inl Dangling
           | Some nx \<Rightarrow>
               bind_err (incr_while (m_A m) (it_bucket it) nx) (\<lambda>(b, p).
                 Inr (make_iterator b (if b = Vector_size (m_A m) then None else p)))))"

text \<open>
  A traversal \<^verbatim>\<open>for(it = begin(); it != end(); ++it)\<close> that reads \<^verbatim>\<open>*it\<close>, for at most
  \<open>fuel\<close> steps: the pairs it has read, or the fault it runs into.
\<close>

fun traverse :: "nat \<Rightarrow> ('k, 'v) UnorderedMap \<Rightarrow> map_iterator \<Rightarrow> error + ('k \<times> 'v) list" where
  "traverse 0 m it = Inl NonTermination"
| "traverse (Suc fuel) m it =
     (if it = UnorderedMap_end m then Inr []
      else
        bind_err (map_iterator_deref m it) (\<lambda>p.
          bind_err (map_iterator_incr m it) (\<lambda>it'.
            bind_err (traverse fuel m it') (\<lambda>ps. Inr (p # ps)))))"

section \<open>What a map stores\<close>

text \<open>The chains of the live buckets, and the pairs in them.\<close>

definition live_buckets :: "('k, 'v) UnorderedMap \<Rightarrow> ('k \<times> 'v) ForwardList list" where
  "live_buckets m = take (bucket_count m) (v_cells (m_A m))"

definition chain_pairs :: "'a ForwardList \<Rightarrow> 'a list" where
  "chain_pairs l = map snd (l_nodes l)"

definition stored_pairs :: "('k, 'v) UnorderedMap \<Rightarrow> ('k \<times> 'v) list" where
  "stored_pairs m = concat (map chain_pairs (live_buckets m))"

text \<open>
  A Vector in a consistent state: the size is at most the capacity, the buffer has one
  slot for each unit of capacity, and the buffer pointer is not null when the capacity
  is not 0. (A Vector of capacity 0 may have a buffer of no slots, as an empty Vector has
  after \<^verbatim>\<open>shrink_to_fit\<close>, or a null pointer.)
\<close>

definition Vector_inv :: "'a Vector \<Rightarrow> bool" where
  "Vector_inv v \<longleftrightarrow>
     v_currentSize v \<le> v_currentCapacity v \<and> length (v_cells v) = v_currentCapacity v \<and>
     (0 < v_currentCapacity v \<longrightarrow> v_data v \<noteq> None)"

text \<open>Every pair of a live chain is in the chain of its hash value.\<close>

definition buckets_ok :: "('k, 'v) UnorderedMap \<Rightarrow> bool" where
  "buckets_ok m \<longleftrightarrow>
     (\<forall>i < bucket_count m. \<forall>p \<in> set (chain_pairs (v_cells (m_A m) ! i)).
        m_h m (fst p) mod bucket_count m = i)"

text \<open>A run of insertions, one after the other.\<close>

fun insert_all ::
  "heap \<Rightarrow> ('k, 'v) UnorderedMap \<Rightarrow> ('k \<times> 'v) list \<Rightarrow> error + ('k, 'v) UnorderedMap \<times> heap" where
  "insert_all hp m [] = Inr (m, hp)"
| "insert_all hp m (p # ps) =
     bind_err (UnorderedMap_insert hp m p) (\<lambda>(r, m', hp'). insert_all hp' m' ps)"

text \<open>
  The nodes of all chains of a bucket array, and the state of the heap they live in: no
  two nodes share an address, and every address was handed out before \<open>hp\<close>.
\<close>

definition all_nodes :: "'a ForwardList list \<Rightarrow> 'a node list" where
  "all_nodes ls = concat (map l_nodes ls)"

definition heap_ok :: "'a ForwardList list \<Rightarrow> heap \<Rightarrow> bool" where
  "heap_ok ls hp \<longleftrightarrow> distinct (map fst (all_nodes ls)) \<and> (\<forall>a \<in> set (map fst (all_nodes ls)). a < hp)"

text \<open>
  A bucket array that is its own buffer (size, capacity and buffer length agree), is not
  empty, holds every pair in the chain of its hash value, and lives in a heap that is in
  order.
\<close>

definition buckets_inv :: "('k \<Rightarrow> nat) \<Rightarrow> ('k \<times> 'v) ForwardList Vector \<Rightarrow> heap \<Rightarrow> bool" where
  "buckets_inv hs t hp \<longleftrightarrow>
     v_data t \<noteq> None \<and> length (v_cells t) = v_currentSize t \<and> 0 < v_currentSize t \<and>
     v_currentCapacity t = v_currentSize t \<and>
     (\<forall>j < v_currentSize t. \<forall>q \<in> set (chain_pairs (v_cells t ! j)). hs (fst q) mod v_currentSize t = j) \<and>
     heap_ok (v_cells t) hp"

text \<open>
  The invariant of a map: its bucket array is in order, no key is stored twice, and
  \<open>m_currentSize\<close> counts the stored pairs.
\<close>

definition map_inv :: "('k, 'v) UnorderedMap \<Rightarrow> heap \<Rightarrow> bool" where
  "map_inv m hp \<longleftrightarrow>
     buckets_inv (m_h m) (m_A m) hp \<and> distinct (map fst (stored_pairs m)) \<and>
     m_currentSize m = length (stored_pairs m)"

text \<open>
  The map after the pair \<open>p\<close> was pushed to the front of the chain of its hash value, in a
  new node at address \<open>hp\<close>, and counted.
\<close>

definition pushed :: "heap \<Rightarrow> ('k, 'v) UnorderedMap \<Rightarrow> 'k \<times> 'v \<Rightarrow> ('k, 'v) UnorderedMap" where
  "pushed hp m p =
     (let index = m_h m (fst p) mod bucket_count m; l = v_cells (m_A m) ! index in
      m\<lparr>m_A := (m_A m)\<lparr>v_cells := (v_cells (m_A m))[index :=
             \<lparr>l_nodes = (hp, p) # l_nodes l, l_size = size_incr (l_size l)\<rparr>]\<rparr>,
        m_currentSize := size_incr (m_currentSize m)\<rparr>)"

text \<open>
  The map with the hash \<open>\<lambda>k. k\<close> that the default constructor and the insertions of
  \<open>(1, 10)\<close> and \<open>(2, 20)\<close> produce: 2 buckets, 2 pairs.
\<close>

definition example_map :: "(nat, nat) UnorderedMap" where
  "example_map =
     \<lparr>m_A = \<lparr>v_data = Some 0,
             v_cells = [\<lparr>l_nodes = [(2, (2, 20))], l_size = 1\<rparr>,
                        \<lparr>l_nodes = [(1, (1, 10))], l_size = 1\<rparr>],
             v_currentSize = 2, v_currentCapacity = 2\<rparr>,
      m_h = (\<lambda>k. k), m_currentSize = 2, m_max_load_factor = Finite 1\<rparr>"

section \<open>Lemmas\<close>

subsection \<open>Faults and \<open>nextPrime\<close>\<close>

lemma bind_err_simps [simp]:
  "bind_err (Inl e) f = Inl e"
  "bind_err (Inr x) f = f x"
  by (simp_all add: bind_err_def)

lemma bind_err_Inr_iff: "bind_err r f = Inr y \<longleftrightarrow> (\<exists>x. r = Inr x \<and> f x = Inr y)"
  by (cases r) simp_all

lemma nextPrime_for_eq:
  "0 < i \<Longrightarrow> num div 2 < 2 ^ 32 - 1 \<Longrightarrow>
   nextPrime_for num i = Inr (\<exists>d \<in> {i..num div 2}. d dvd num)"
proof (induction num i rule: nextPrime_for.induct)
  case (1 num i)
  show ?case
  proof (cases "i \<le> num div 2")
    case False
    then show ?thesis by (simp add: nextPrime_for.simps [of num i])
  next
    case le: True
    show ?thesis
    proof (cases "num mod i = 0")
      case True
      with le 1(2) have "\<exists>d \<in> {i..num div 2}. d dvd num"
        by (intro bexI [of _ i]) auto
      with le True 1(2) show ?thesis
        by (simp add: nextPrime_for.simps [of num i])
    next
      case False
      from le 1(3) have inc: "unsigned_incr i = Suc i"
        by (simp add: unsigned_incr_def)
      have "nextPrime_for num (unsigned_incr i) = Inr (\<exists>d \<in> {unsigned_incr i..num div 2}. d dvd num)"
        using 1(1) [OF le _ False] 1(2,3) inc by simp
      moreover have "(\<exists>d \<in> {Suc i..num div 2}. d dvd num) \<longleftrightarrow> (\<exists>d \<in> {i..num div 2}. d dvd num)"
      proof
        assume "\<exists>d \<in> {Suc i..num div 2}. d dvd num"
        then show "\<exists>d \<in> {i..num div 2}. d dvd num" by auto
      next
        assume "\<exists>d \<in> {i..num div 2}. d dvd num"
        then obtain d where d: "i \<le> d" "d \<le> num div 2" "d dvd num" by auto
        with False have "d \<noteq> i" by (auto simp: dvd_eq_mod_eq_0)
        with d show "\<exists>d \<in> {Suc i..num div 2}. d dvd num" by auto
      qed
      ultimately show ?thesis
        using le False 1(2) inc by (simp add: nextPrime_for.simps [of num i])
    qed
  qed
qed

lemma is_prime_half:
  assumes "2 \<le> num"
  shows "is_prime num \<longleftrightarrow> \<not> (\<exists>d \<in> {2..num div 2}. d dvd num)"
proof
  assume p: "is_prime num"
  show "\<not> (\<exists>d \<in> {2..num div 2}. d dvd num)"
  proof
    assume "\<exists>d \<in> {2..num div 2}. d dvd num"
    then obtain d where "2 \<le> d" "d \<le> num div 2" "d dvd num" by auto
    moreover from this assms have "d < num" by linarith
    ultimately show False using p by (auto simp: is_prime_def)
  qed
next
  assume h: "\<not> (\<exists>d \<in> {2..num div 2}. d dvd num)"
  have "\<not> d dvd num" if "d \<in> {2..<num}" for d
  proof
    assume dv: "d dvd num"
    then obtain k where k: "num = d * k" by (auto simp: dvd_def)
    with that have "2 \<le> k" 
      by (cases k; cases "k - 1") auto
    then have "d * 2 \<le> num" using k by simp
    then have "d \<le> num div 2" by linarith
    with that dv h show False by auto
  qed
  with assms show "is_prime num" by (auto simp: is_prime_def)
qed

lemma nextPrime_while_eq:
  assumes "is_prime p" "p div 2 < 2 ^ 32 - 1"
  shows "2 \<le> num \<Longrightarrow> num \<le> p \<Longrightarrow>
    \<exists>q. nextPrime_while num = Inr q \<and> is_prime q \<and> num \<le> q \<and> q \<le> p \<and>
      (\<forall>r. is_prime r \<and> num \<le> r \<longrightarrow> q \<le> r)"
proof (induction "p - num" arbitrary: num rule: less_induct)
  case less
  from less.prems assms(2) have half: "num div 2 < 2 ^ 32 - 1" 
    by (meson div_le_mono le_less_trans)
  have tst: "nextPrime_for num 2 = Inr (\<not> is_prime num)"
    using nextPrime_for_eq [of 2 num] half is_prime_half [OF less.prems(1)] by simp
  show ?case
  proof (cases "is_prime num")
    case True
    with tst less.prems show ?thesis
      by (simp add: nextPrime_while.simps [of num])
  next
    case False
    with less.prems assms(1) have lt: "num < p"
      by (cases "num = p") auto
    have "p div 2 < 4294967295" using assms(2) by simp
    then have "p < 18446744073709551616" by linarith
    with lt have inc: "size_incr num = Suc num"
      by (simp add: size_incr_def)
    from lt less.prems have "\<exists>q. nextPrime_while (Suc num) = Inr q \<and> is_prime q \<and> Suc num \<le> q \<and> q \<le> p \<and>
      (\<forall>r. is_prime r \<and> Suc num \<le> r \<longrightarrow> q \<le> r)"
      by (intro less.hyps) auto
    then obtain q where q: "nextPrime_while (Suc num) = Inr q" "is_prime q" "Suc num \<le> q" "q \<le> p"
      "\<forall>r. is_prime r \<and> Suc num \<le> r \<longrightarrow> q \<le> r" by blast
    have "q \<le> r" if "is_prime r" "num \<le> r" for r
    proof -
      from that False have "r \<noteq> num" by auto
      with that q(5) show ?thesis by (simp add: Suc_le_eq)
    qed
    with q tst False inc show ?thesis
      by (simp add: nextPrime_while.simps [of num])
  qed
qed

lemma is_prime_2: "is_prime 2"
  by (simp add: is_prime_def)

lemma is_prime_ge_2: "is_prime p \<Longrightarrow> 2 \<le> p"
  by (simp add: is_prime_def)

lemma nextPrime_in_range:
  assumes "is_prime p" "p div 2 < 2 ^ 32 - 1" "n \<le> p"
  shows "\<exists>q. nextPrime n = Inr q \<and> is_prime q \<and> n \<le> q \<and> q \<le> p \<and>
      (\<forall>r. is_prime r \<and> n \<le> r \<longrightarrow> q \<le> r)"
proof (cases "n \<le> 1")
  case True
  then show ?thesis
    using is_prime_2 is_prime_ge_2 assms(1) by (auto simp: nextPrime_def)
next
  case False
  then show ?thesis
    using nextPrime_while_eq [OF assms(1,2), of n] assms(3) by (simp add: nextPrime_def)
qed

subsection \<open>Rounding to binary32\<close>

lemma rne_of_int: "rne (of_int k) = k"
  by (simp add: rne_def)

lemma rne_bounds: "\<lfloor>x\<rfloor> \<le> rne x \<and> rne x \<le> \<lfloor>x\<rfloor> + 1"
  by (simp add: rne_def Let_def)

lemma rne_le_int: "x \<le> of_int M \<Longrightarrow> rne x \<le> M"
proof -
  assume h: "x \<le> of_int M"
  show ?thesis
  proof (cases "x = of_int M")
    case True
    then show ?thesis by (simp add: rne_of_int)
  next
    case False
    with h have "x < of_int M" by simp
    then have "\<lfloor>x\<rfloor> < M" by (simp add: floor_less_iff)
    with rne_bounds [of x] show ?thesis by linarith
  qed
qed

lemma rne_ge_int: "of_int M \<le> x \<Longrightarrow> M \<le> rne x"
proof -
  assume "of_int M \<le> x"
  then have "M \<le> \<lfloor>x\<rfloor>" by (simp add: le_floor_iff)
  with rne_bounds [of x] show ?thesis by linarith
qed

lemma rne_mono: "x \<le> y \<Longrightarrow> rne x \<le> rne y"
proof -
  assume h: "x \<le> y"
  then have f: "\<lfloor>x\<rfloor> \<le> \<lfloor>y\<rfloor>" by (rule floor_mono)
  show ?thesis
  proof (cases "\<lfloor>x\<rfloor> = \<lfloor>y\<rfloor>")
    case True
    with h show ?thesis
      by (auto simp: rne_def Let_def)
  next
    case False
    with f have "\<lfloor>x\<rfloor> + 1 \<le> \<lfloor>y\<rfloor>" by simp
    with rne_bounds [of x] rne_bounds [of y] show ?thesis by linarith
  qed
qed

lemma ilog2_bounds:
  assumes "0 < a"
  shows "2 powi ilog2 a \<le> a" and "a < 2 powi (ilog2 a + 1)"
proof -
  have "2 powi ilog2 a \<le> a \<and> a < 2 powi (ilog2 a + 1)"
  proof (cases "1 \<le> a")
    case True
    define F where "F = \<lfloor>a\<rfloor>"
    have F1: "1 \<le> F" using True by (simp add: F_def le_floor_iff)
    then have F0: "0 < F" by simp
    define L where "L = bitlen F"
    from bitlen_bounds [OF F0] have b: "2 ^ nat (L - 1) \<le> F" "F < 2 ^ nat L"
      by (simp_all add: L_def)
    have L1: "1 \<le> L"
    proof (rule ccontr)
      assume "\<not> 1 \<le> L"
      then have "nat L = 0" by simp
      with b(2) F1 show False by simp
    qed
    have il: "ilog2 a = L - 1" using True by (simp add: ilog2_def F_def L_def)
    have "(2 :: rat) powi (L - 1) = 2 ^ nat (L - 1)"
      using L1 by (simp add: power_int_def)
    also have "\<dots> = of_int (2 ^ nat (L - 1))" by simp
    also have "\<dots> \<le> of_int F" using b(1) by (simp only: of_int_le_iff)
    also have "\<dots> \<le> a" by (simp add: F_def)
    finally have lo: "2 powi (L - 1) \<le> a" .
    have "F + 1 \<le> 2 ^ nat L" using b(2) by simp
    then have "(of_int (F + 1) :: rat) \<le> of_int (2 ^ nat L)" by (simp only: of_int_le_iff)
    moreover have "a < of_int (F + 1)" using floor_correct [of a] by (simp add: F_def)
    ultimately have "a < of_int (2 ^ nat L)" by simp
    also have "\<dots> = 2 powi L" using L1 by (simp add: power_int_def)
    finally have hi: "a < 2 powi L" .
    from lo hi il show ?thesis by simp
  next
    case False
    then have a1: "a < 1" by simp
    define Y where "Y = \<lceil>1 / a\<rceil>"
    have "1 < 1 / a" using assms a1 by (simp add: less_divide_eq)
    then have Y2: "2 \<le> Y" unfolding Y_def by (simp add: le_ceiling_iff)
    then have Y0: "0 < Y - 1" by simp
    define L where "L = bitlen (Y - 1)"
    from bitlen_bounds [OF Y0] have b: "2 ^ nat (L - 1) \<le> Y - 1" "Y - 1 < 2 ^ nat L"
      by (simp_all add: L_def)
    have L1: "1 \<le> L"
    proof (rule ccontr)
      assume "\<not> 1 \<le> L"
      then have "nat L = 0" by simp
      with b(2) Y2 show False by simp
    qed
    have il: "ilog2 a = - L" using False by (simp add: ilog2_def Y_def L_def)
    have "Y \<le> 2 ^ nat L" using b(2) by simp
    then have yl: "(of_int Y :: rat) \<le> of_int (2 ^ nat L)" by (simp only: of_int_le_iff)
    have "1 / a \<le> of_int Y" by (simp add: Y_def)
    from this yl have "1 / a \<le> of_int (2 ^ nat L)" by (rule order_trans)
    also have "\<dots> = 2 powi L" using L1 by (simp add: power_int_def)
    finally have "1 / a \<le> 2 powi L" .
    then have "1 \<le> 2 powi L * a" using assms by (simp add: divide_le_eq)
    then have "1 / 2 powi L \<le> a"
      by (simp add: divide_le_eq mult.commute)
    then have lo: "2 powi (- L) \<le> a" by (simp add: power_int_minus_divide)
    have "(of_int (2 ^ nat (L - 1)) :: rat) \<le> of_int (Y - 1)" using b(1) by (simp only: of_int_le_iff)
    moreover have "of_int (Y - 1) < 1 / a" unfolding Y_def
      using ceiling_correct [of "1 / a"] by simp
    ultimately have "(of_int (2 ^ nat (L - 1)) :: rat) < 1 / a" by simp
    moreover have "(of_int (2 ^ nat (L - 1)) :: rat) = 2 powi (L - 1)"
      using L1 by (simp add: power_int_def)
    ultimately have "2 powi (L - 1) < 1 / a" by simp
    then have "2 powi (L - 1) * a < 1" using assms by (simp add: less_divide_eq)
    then have "a < 1 / 2 powi (L - 1)"
      by (simp add: less_divide_eq mult.commute)
    then have hi: "a < 2 powi (- L + 1)"
      using power_int_minus_divide [of "2 :: rat" "L - 1"] by simp
    from lo hi il show ?thesis by simp
  qed
  then show "2 powi ilog2 a \<le> a" and "a < 2 powi (ilog2 a + 1)" by simp_all
qed

lemma pow2_less_iff: "(2 :: rat) powi m < 2 powi n \<longleftrightarrow> m < n"
proof
  assume h: "(2 :: rat) powi m < 2 powi n"
  show "m < n"
  proof (rule ccontr)
    assume "\<not> m < n"
    then have "n \<le> m" by simp
    then have "(2 :: rat) powi n \<le> 2 powi m" by (rule power_int_increasing) simp
    with h show False by simp
  qed
next
  assume "m < n"
  then show "(2 :: rat) powi m < 2 powi n" by (rule power_int_strict_increasing) simp
qed

lemma pow2_le_iff: "(2 :: rat) powi m \<le> 2 powi n \<longleftrightarrow> m \<le> n"
  using pow2_less_iff [of n m] by (simp add: not_less [symmetric])

lemma pow2_pos: "0 < (2 :: rat) powi n"
  by simp

lemma pow2_add: "(2 :: rat) powi (m + n) = 2 powi m * 2 powi n"
  by (simp add: power_int_add)

lemma ilog2_less: "0 < a \<Longrightarrow> a < 2 powi k \<Longrightarrow> ilog2 a < k"
proof -
  assume a: "0 < a" "a < 2 powi k"
  from ilog2_bounds(1) [OF a(1)] a(2) have "(2 :: rat) powi ilog2 a < 2 powi k" by simp
  then show ?thesis by (simp only: pow2_less_iff)
qed

lemma ilog2_ge: "0 < a \<Longrightarrow> 2 powi k \<le> a \<Longrightarrow> k \<le> ilog2 a"
proof -
  assume a: "0 < a" "2 powi k \<le> a"
  from ilog2_bounds(2) [OF a(1)] a(2) have "(2 :: rat) powi k < 2 powi (ilog2 a + 1)" by simp
  then have "k < ilog2 a + 1" by (simp only: pow2_less_iff)
  then show ?thesis by simp
qed

lemma ilog2_mono: "0 < a \<Longrightarrow> a \<le> b \<Longrightarrow> ilog2 a \<le> ilog2 b"
proof -
  assume a: "0 < a" "a \<le> b"
  then have b: "0 < b" by simp
  from ilog2_bounds(1) [OF a(1)] a(2) have "2 powi ilog2 a \<le> b" by simp
  then show ?thesis using b by (intro ilog2_ge)
qed

lemma ulp_exp_mono: "0 < a \<Longrightarrow> a \<le> b \<Longrightarrow> ulp_exp a \<le> ulp_exp b"
  using ilog2_mono [of a b] by (simp add: ulp_exp_def)

lemma ulp_exp_upper: "0 < a \<Longrightarrow> a < 2 powi (ulp_exp a + 24)"
proof -
  assume a: "0 < a"
  have "ilog2 a + 1 \<le> ulp_exp a + 24" by (simp add: ulp_exp_def)
  then have "(2 :: rat) powi (ilog2 a + 1) \<le> 2 powi (ulp_exp a + 24)" by (simp only: pow2_le_iff)
  with ilog2_bounds(2) [OF a] show ?thesis by simp
qed

lemma fl_mag_nonneg: "0 \<le> a \<Longrightarrow> 0 \<le> fl_mag a"
proof -
  assume a: "0 \<le> a"
  have "0 \<le> a / 2 powi ulp_exp a" using a by simp
  then have "of_int 0 \<le> a / 2 powi ulp_exp a" by simp
  then have "0 \<le> rne (a / 2 powi ulp_exp a)" by (rule rne_ge_int)
  then show ?thesis by (simp add: fl_mag_def)
qed

text \<open>
  A number at or below (at or above) a multiple of a unit that is no finer than its own
  rounds to a number at or below (at or above) that multiple.
\<close>

lemma fl_mag_le_grid:
  assumes "0 < a" "a \<le> of_int M * 2 powi e" "ulp_exp a \<le> e"
  shows "fl_mag a \<le> of_int M * 2 powi e"
proof -
  define u where "u = ulp_exp a"
  define d where "d = e - u"
  have d0: "0 \<le> d" using assms(3) by (simp add: d_def u_def)
  have e: "e = u + d" by (simp add: d_def)
  have pd: "(2 :: rat) powi d = of_int (2 ^ nat d)" using d0 by (simp add: power_int_def)
  have pe: "(2 :: rat) powi e = 2 powi u * of_int (2 ^ nat d)"
    unfolding e pow2_add pd ..
  have "a / 2 powi u \<le> of_int M * of_int (2 ^ nat d)"
    using assms(2) by (simp add: pe divide_le_eq mult.assoc mult.left_commute mult.commute)
  then have "a / 2 powi u \<le> of_int (M * 2 ^ nat d)" by simp
  then have "rne (a / 2 powi u) \<le> M * 2 ^ nat d" by (rule rne_le_int)
  then have "(of_int (rne (a / 2 powi u)) :: rat) \<le> of_int (M * 2 ^ nat d)" by (simp only: of_int_le_iff)
  then have "(of_int (rne (a / 2 powi u)) :: rat) * 2 powi u \<le> of_int (M * 2 ^ nat d) * 2 powi u"
    by (rule mult_right_mono) simp
  also have "\<dots> = of_int M * 2 powi e" by (simp add: pe)
  finally show ?thesis using assms(1) by (simp add: fl_mag_def u_def)
qed

lemma fl_mag_ge_grid:
  assumes "0 < a" "of_int M * 2 powi e \<le> a" "ulp_exp a \<le> e"
  shows "of_int M * 2 powi e \<le> fl_mag a"
proof -
  define u where "u = ulp_exp a"
  define d where "d = e - u"
  have d0: "0 \<le> d" using assms(3) by (simp add: d_def u_def)
  have e: "e = u + d" by (simp add: d_def)
  have pd: "(2 :: rat) powi d = of_int (2 ^ nat d)" using d0 by (simp add: power_int_def)
  have pe: "(2 :: rat) powi e = 2 powi u * of_int (2 ^ nat d)"
    unfolding e pow2_add pd ..
  have "of_int M * of_int (2 ^ nat d) \<le> a / 2 powi u"
    using assms(2) by (simp add: pe le_divide_eq mult.assoc mult.left_commute mult.commute)
  then have "of_int (M * 2 ^ nat d) \<le> a / 2 powi u" by simp
  then have "M * 2 ^ nat d \<le> rne (a / 2 powi u)" by (rule rne_ge_int)
  then have "(of_int (M * 2 ^ nat d) :: rat) \<le> of_int (rne (a / 2 powi u))" by (simp only: of_int_le_iff)
  then have le: "(of_int (M * 2 ^ nat d) :: rat) * 2 powi u \<le> of_int (rne (a / 2 powi u)) * 2 powi u"
    by (rule mult_right_mono) simp
  have eq: "(of_int (M * 2 ^ nat d) :: rat) * 2 powi u = of_int M * 2 powi e" by (simp add: pe)
  have fl: "fl_mag a = of_int (rne (a / 2 powi u)) * 2 powi u"
    using assms(1) by (simp add: fl_mag_def u_def)
  from le show ?thesis unfolding eq fl .
qed

lemma fl_mag_mono:
  assumes "0 \<le> x" "x \<le> y"
  shows "fl_mag x \<le> fl_mag y"
proof (cases "x = 0")
  case True
  with assms fl_mag_nonneg [of y] show ?thesis by (simp add: fl_mag_def)
next
  case False
  with assms have x: "0 < x" and y: "0 < y" by simp_all
  have le: "ulp_exp x \<le> ulp_exp y" using x assms(2) by (rule ulp_exp_mono)
  show ?thesis
  proof (cases "ulp_exp x = ulp_exp y")
    case True
    have "x / 2 powi ulp_exp y \<le> y / 2 powi ulp_exp y"
      using assms(2) by (simp add: divide_right_mono)
    then have "rne (x / 2 powi ulp_exp y) \<le> rne (y / 2 powi ulp_exp y)" by (rule rne_mono)
    then have "(of_int (rne (x / 2 powi ulp_exp y)) :: rat) \<le> of_int (rne (y / 2 powi ulp_exp y))"
      by (simp only: of_int_le_iff)
    then have "(of_int (rne (x / 2 powi ulp_exp y)) :: rat) * 2 powi ulp_exp y
        \<le> of_int (rne (y / 2 powi ulp_exp y)) * 2 powi ulp_exp y"
      by (rule mult_right_mono) simp
    with x y True show ?thesis by (simp add: fl_mag_def)
  next
    case False
    with le have lt: "ulp_exp x < ulp_exp y" by simp
    then have ey: "ulp_exp y = ilog2 y - 23" and "ilog2 x - 23 < ilog2 y - 23"
      by (auto simp: ulp_exp_def max_def split: if_splits)
    then have il: "ilog2 x + 1 \<le> ilog2 y" by simp
    define B :: rat where "B = of_int 1 * 2 powi (ilog2 y)"
    have "x < 2 powi (ilog2 x + 1)" using x by (rule ilog2_bounds)
    also have "\<dots> \<le> 2 powi (ilog2 y)" using il by (simp only: pow2_le_iff)
    finally have xB: "x \<le> B" by (simp add: B_def)
    have yB: "B \<le> y" using ilog2_bounds(1) [OF y] by (simp add: B_def)
    have e1: "ulp_exp x \<le> ilog2 y" using lt ey by simp
    have e2: "ulp_exp y \<le> ilog2 y" using ey by simp
    have "fl_mag x \<le> B" unfolding B_def using x xB [unfolded B_def] e1 by (rule fl_mag_le_grid)
    moreover have "B \<le> fl_mag y" unfolding B_def using y yB [unfolded B_def] e2 by (rule fl_mag_ge_grid)
    ultimately show ?thesis by simp
  qed
qed

lemma fl_mag_exact:
  assumes "float_mag r"
  shows "fl_mag r = r"
proof -
  from assms obtain K e where r: "r = of_int K * 2 powi e" and K: "0 \<le> K" "K \<le> 2 ^ 24"
    and e: "- 149 \<le> e" by (auto simp: float_mag_def)
  show ?thesis
  proof (cases "K = 0")
    case True
    with r show ?thesis by (simp add: fl_mag_def)
  next
    case False
    with K have K1: "1 \<le> K" by simp
    then have "(of_int 1 :: rat) \<le> of_int K" by (simp only: of_int_le_iff)
    then have r0: "0 < r" unfolding r by (intro mult_pos_pos) simp_all
    have "(of_int K :: rat) \<le> of_int (2 ^ 24)" using K(2) by (simp only: of_int_le_iff)
    then have "(of_int K :: rat) \<le> 2 powi 24" by simp
    then have "r \<le> 2 powi 24 * 2 powi e" unfolding r by (intro mult_right_mono) simp_all
    then have rle: "r \<le> 2 powi (e + 24)" by (simp add: pow2_add mult.commute)
    have ue: "ulp_exp r \<le> e + 1"
    proof -
      from ilog2_bounds(1) [OF r0] rle have "(2 :: rat) powi ilog2 r \<le> 2 powi (e + 24)" by simp
      then have "ilog2 r \<le> e + 24" by (simp only: pow2_le_iff)
      with e show ?thesis by (simp add: ulp_exp_def)
    qed
    show ?thesis
    proof (cases "ulp_exp r \<le> e")
      case True
      have "r \<le> of_int K * 2 powi e" "of_int K * 2 powi e \<le> r" by (simp_all add: r)
      from fl_mag_le_grid [OF r0 this(1) True] fl_mag_ge_grid [OF r0 this(2) True]
      show ?thesis by (simp add: r)
    next
      case False
      with ue have u: "ulp_exp r = e + 1" by simp
      with e have "ilog2 r - 23 = e + 1" by (auto simp: ulp_exp_def max_def split: if_splits)
      then have "ilog2 r = e + 24" by simp
      with ilog2_bounds(1) [OF r0] have "2 powi (e + 24) \<le> r" by simp
      with rle have req: "r = of_int (2 ^ 23) * 2 powi (e + 1)"
        by (simp add: pow2_add)
      have "r \<le> of_int (2 ^ 23) * 2 powi (e + 1)" "of_int (2 ^ 23) * 2 powi (e + 1) \<le> r"
        using req by simp_all
      from fl_mag_le_grid [OF r0 this(1)] fl_mag_ge_grid [OF r0 this(2)] u
      show ?thesis using req by simp
    qed
  qed
qed

lemma fl_mag_on_grid:
  assumes "0 \<le> y"
  shows "float_mag (fl_mag y)"
proof (cases "y = 0")
  case True
  have "(0 :: rat) = of_int 0 * 2 powi 0" by simp
  then have "float_mag 0" unfolding float_mag_def by (intro exI [of _ 0] exI [of _ "0 :: int"]) simp
  with True show ?thesis by (simp add: fl_mag_def)
next
  case False
  with assms have y: "0 < y" by simp
  define u where "u = ulp_exp y"
  define K where "K = rne (y / 2 powi u)"
  have "0 \<le> y / 2 powi u" using assms by simp
  then have "of_int 0 \<le> y / 2 powi u" by simp
  then have K0: "0 \<le> K" unfolding K_def by (rule rne_ge_int)
  have "y < 2 powi (u + 24)" unfolding u_def using y by (rule ulp_exp_upper)
  then have "y / 2 powi u < 2 powi 24"
    by (simp add: pow2_add divide_less_eq mult.commute)
  then have "y / 2 powi u \<le> of_int (2 ^ 24)" by simp
  then have K1: "K \<le> 2 ^ 24" unfolding K_def by (rule rne_le_int)
  have u: "- 149 \<le> u" by (simp add: u_def ulp_exp_def)
  have "fl_mag y = of_int K * 2 powi u" using False by (simp add: fl_mag_def K_def u_def)
  with K0 K1 u show ?thesis unfolding float_mag_def by blast
qed

lemma fl_mag_idem: "0 \<le> y \<Longrightarrow> fl_mag (fl_mag y) = fl_mag y"
  by (intro fl_mag_exact fl_mag_on_grid)

lemma float_mag_nat: "n \<le> 2 ^ 24 \<Longrightarrow> float_mag (of_nat n)"
proof -
  assume "n \<le> 2 ^ 24"
  then have "int n \<le> 2 ^ 24" by simp
  moreover have "(of_nat n :: rat) = of_int (int n) * 2 powi 0" by simp
  ultimately show ?thesis unfolding float_mag_def by (intro exI [of _ "int n"] exI [of _ "0 :: int"]) simp
qed

lemma float_mag_double: "float_mag r \<Longrightarrow> float_mag (r * 2)"
proof -
  assume "float_mag r"
  then obtain K e where r: "r = of_int K * 2 powi e" and K: "0 \<le> K" "K \<le> 2 ^ 24"
    and e: "- 149 \<le> e" by (auto simp: float_mag_def)
  have "r * 2 = of_int K * 2 powi (e + 1)" by (simp add: r pow2_add)
  moreover have "- 149 \<le> e + 1" using e by simp
  ultimately show ?thesis using K unfolding float_mag_def by blast
qed

lemma float_mag_half: "float_mag (1 / 2)"
proof -
  have "(1 / 2 :: rat) = of_int 1 * 2 powi (- 1)" by (simp add: power_int_minus_divide)
  then show ?thesis unfolding float_mag_def by (intro exI [of _ 1] exI [of _ "- 1 :: int"]) simp
qed

lemma float_mag_nonneg: "float_mag r \<Longrightarrow> 0 \<le> r"
  by (auto simp: float_mag_def)

lemma round32_Finite: "0 \<le> y \<Longrightarrow> fl_mag y < 2 ^ 128 \<Longrightarrow> round32 y = Finite (fl_mag y)"
  by (simp add: round32_def)

lemma round32_exact: "float_mag r \<Longrightarrow> r < 2 ^ 128 \<Longrightarrow> round32 r = Finite r"
  using float_mag_nonneg [of r] fl_mag_exact [of r] by (simp add: round32_def)

lemma round32_grid: "round32 y = Finite r \<Longrightarrow> float_mag \<bar>r\<bar>"
proof -
  assume h: "round32 y = Finite r"
  show ?thesis
  proof (cases "0 \<le> y")
    case True
    with h have "r = fl_mag y" by (simp add: round32_def split: if_splits)
    with True fl_mag_nonneg [of y] fl_mag_on_grid [of y] show ?thesis by simp
  next
    case False
    then have y: "0 \<le> - y" by simp
    from False h have "r = - fl_mag (- y)" by (simp add: round32_def split: if_splits)
    with fl_mag_nonneg [OF y] fl_mag_on_grid [OF y] show ?thesis by simp
  qed
qed

lemma float_mag_0: "float_mag 0"
proof -
  have "(0 :: rat) = of_int 0 * 2 powi 0" by simp
  then show ?thesis unfolding float_mag_def by (intro exI [of _ 0] exI [of _ "0 :: int"]) simp
qed

lemma flt_div_grid: "flt_div a b = Finite r \<Longrightarrow> float_mag \<bar>r\<bar>"
  using round32_grid [of "flt_val a / flt_val b" r] float_mag_0
  by (auto simp: flt_div_def split: if_splits)

lemma float_mag_pow64: "float_mag (2 ^ 64)"
proof -
  have "(2 ^ 64 :: rat) = of_int 1 * 2 powi 64" by simp
  then show ?thesis unfolding float_mag_def by (intro exI [of _ 1] exI [of _ "64 :: int"]) simp
qed

lemma fl_mag_size: "n \<le> 2 ^ 64 \<Longrightarrow> fl_mag (of_nat n) \<le> 2 ^ 64"
proof -
  assume "n \<le> 2 ^ 64"
  then have "(of_nat n :: rat) \<le> of_nat (2 ^ 64)" by (simp only: of_nat_le_iff)
  then have "(of_nat n :: rat) \<le> 2 ^ 64" by simp
  then have "fl_mag (of_nat n) \<le> fl_mag (2 ^ 64)" by (intro fl_mag_mono) simp_all
  also have "fl_mag (2 ^ 64) = 2 ^ 64" using float_mag_pow64 by (rule fl_mag_exact)
  finally show ?thesis .
qed

lemma float_of_size_Finite: "n \<le> 2 ^ 64 \<Longrightarrow> float_of_size n = Finite (fl_mag (of_nat n))"
proof -
  assume "n \<le> 2 ^ 64"
  then have "fl_mag (of_nat n) \<le> 2 ^ 64" by (rule fl_mag_size)
  then have "fl_mag (of_nat n) < 2 ^ 128" by simp
  then show ?thesis unfolding float_of_size_def by (intro round32_Finite) simp_all
qed

lemma fl_mag_nat: "n \<le> 2 ^ 24 \<Longrightarrow> fl_mag (of_nat n) = of_nat n"
  by (intro fl_mag_exact float_mag_nat)

lemma float_of_size_exact: "n \<le> 2 ^ 24 \<Longrightarrow> float_of_size n = Finite (of_nat n)"
proof -
  assume n: "n \<le> 2 ^ 24"
  then have "n \<le> 2 ^ 64" by simp
  then show ?thesis using fl_mag_nat [OF n] by (simp add: float_of_size_Finite)
qed

lemma fl_mag_ge_1: "1 \<le> x \<Longrightarrow> 1 \<le> fl_mag x"
proof -
  assume "1 \<le> x"
  then have "fl_mag 1 \<le> fl_mag x" by (intro fl_mag_mono) simp_all
  moreover have "fl_mag 1 = 1" using fl_mag_nat [of 1] by simp
  ultimately show ?thesis by simp
qed

lemma float_of_size_0: "float_of_size 0 = Finite 0"
  using float_of_size_exact [of 0] by simp

lemma float_of_size_1: "float_of_size (Suc 0) = Finite 1"
  using float_of_size_exact [of 1] by simp

lemma float_of_size_2: "float_of_size 2 = Finite 2"
  using float_of_size_exact [of 2] by simp

lemma round32_nat: "n \<le> 2 ^ 24 \<Longrightarrow> round32 (of_nat n) = Finite (of_nat n)"
  using float_of_size_exact [of n] by (simp add: float_of_size_def)


lemma round32_2: "round32 2 = Finite 2"
  using round32_nat [of 2] by simp

lemma round32_4: "round32 4 = Finite 4"
  using round32_nat [of 4] by simp

lemma round32_half: "round32 (1 / 2) = Finite (1 / 2)"
  by (intro round32_exact float_mag_half) simp

lemma flt_cmp_Finite:
  "flt_less (Finite x) (Finite y) \<longleftrightarrow> x < y"
  "flt_le (Finite x) (Finite y) \<longleftrightarrow> x \<le> y"
  "flt_ge (Finite x) (Finite y) \<longleftrightarrow> y \<le> x"
  by (auto simp: flt_less_def flt_le_def flt_ge_def)

lemma flt_div_Finite:
  "x \<noteq> 0 \<Longrightarrow> y \<noteq> 0 \<Longrightarrow> flt_div (Finite x) (Finite y) = round32 (x / y)"
  by (simp add: flt_div_def flt_is_zero_def flt_is_inf_def)

lemma flt_div_zero: "0 < y \<Longrightarrow> flt_div (Finite 0) (Finite y) = Finite 0"
  by (simp add: flt_div_def flt_is_zero_def flt_is_inf_def)

text \<open>
  The loop of \<^verbatim>\<open>rehash\<close> runs its body at most once: the quotient \<open>x\<close> is a number of the
  format above 1, its double is exact, and the truncated double converts to a number
  that is not below \<open>x\<close>.
\<close>

lemma rehash_while_result:
  assumes n1: "0 < n1" "n1 \<le> q" and q: "q < 2 ^ 64"
    and hx: "flt_less (float_of_size n1) (flt_div a b) \<Longrightarrow>
             flt_le (flt_mul (flt_div a b) (Finite 2)) (Finite (of_nat q))"
  shows "\<exists>n2. rehash_while (flt_div a b) n1 = Some (Inr n2) \<and> n1 \<le> n2 \<and> n2 \<le> q"
proof (cases "flt_less (float_of_size n1) (flt_div a b)")
  case False
  then have "rehash_while (flt_div a b) n1 = Some (Inr n1)"
    by (subst rehash_while.simps) simp
  with n1 show ?thesis by simp
next
  case True
  define x where "x = flt_div a b"
  have n1': "n1 \<le> 2 ^ 64" using n1(2) q by simp
  define f1 where "f1 = fl_mag (of_nat n1)"
  have fs: "float_of_size n1 = Finite f1"
    using float_of_size_Finite [OF n1'] by (simp add: f1_def)
  have "(1 :: rat) \<le> of_nat n1" using n1(1) by simp
  then have f1: "1 \<le> f1" unfolding f1_def by (rule fl_mag_ge_1)
  from True have lt: "flt_less (Finite f1) x" by (simp add: fs x_def)
  from hx [OF True] have le: "flt_le (flt_mul x (Finite 2)) (Finite (of_nat q))"
    by (simp add: x_def)
  have "\<exists>r. x = Finite r \<and> f1 < r"
  proof (cases x)
    case (Finite r)
    with lt show ?thesis by (simp add: flt_less_def)
  next
    case NegZero
    with lt f1 show ?thesis by (simp add: flt_less_def)
  next
    case PosInf
    with le show ?thesis
      by (simp add: flt_mul_def flt_le_def flt_less_def flt_is_inf_def flt_is_zero_def)
  next
    case NegInf
    with lt show ?thesis by (simp add: flt_less_def)
  next
    case NaN
    with lt show ?thesis by (simp add: flt_less_def)
  qed
  then obtain r where xr: "x = Finite r" and r: "f1 < r" by blast
  have r1: "1 < r" using f1 r by simp
  have "float_mag \<bar>r\<bar>" using flt_div_grid [of a b r] xr by (simp add: x_def)
  then have g: "float_mag r" using r1 by simp
  have g2: "float_mag (r * 2)" using g by (rule float_mag_double)
  have mul: "flt_mul x (Finite 2) = round32 (r * 2)"
    using r1 by (simp add: xr flt_mul_def flt_is_inf_def flt_is_zero_def)
  have ex: "fl_mag (r * 2) = r * 2" using g2 by (rule fl_mag_exact)
  have r2: "r * 2 \<le> of_nat q"
    using le r1 by (simp add: mul round32_def ex flt_le_def flt_less_def split: if_splits)
  have "(of_nat q :: rat) < of_nat (2 ^ 64)" using q by (simp only: of_nat_less_iff)
  then have q64: "(of_nat q :: rat) < 2 ^ 64" by simp
  with r2 have r264: "r * 2 < 2 ^ 64" by simp
  then have "r * 2 < 2 ^ 128" by simp
  with g2 have rd: "round32 (r * 2) = Finite (r * 2)" by (rule round32_exact)
  define c where "c = nat \<lfloor>r * 2\<rfloor>"
  have step: "flt_to_size (flt_mul x (Finite 2)) = Inr c"
    using r1 r264 by (simp add: mul rd c_def)
  have cr: "(of_nat c :: rat) = of_int \<lfloor>r * 2\<rfloor>"
    using r1 by (simp add: c_def)
  have "r * 2 - 1 < of_int \<lfloor>r * 2\<rfloor>" by linarith
  with r1 cr have c_ge: "r < of_nat c" by linarith
  have c_le: "(of_nat c :: rat) \<le> r * 2" using cr by linarith
  with r2 have "(of_nat c :: rat) \<le> of_nat q" by simp
  then have cq: "c \<le> q" by (simp only: of_nat_le_iff)
  then have c64: "c \<le> 2 ^ 64" using q by simp
  have "fl_mag r \<le> fl_mag (of_nat c)" using r1 c_ge by (intro fl_mag_mono) simp_all
  then have rc: "r \<le> fl_mag (of_nat c)" by (simp add: fl_mag_exact [OF g])
  have "rehash_while x c = Some (Inr c)"
    using rc by (subst rehash_while.simps) (simp add: float_of_size_Finite [OF c64] xr flt_cmp_Finite)
  with step lt have res: "rehash_while x n1 = Some (Inr c)"
    by (subst rehash_while.simps) (simp add: fs)
  have "n1 \<le> c"
  proof (rule ccontr)
    assume "\<not> n1 \<le> c"
    then have "c \<le> n1" by simp
    then have "(of_nat c :: rat) \<le> of_nat n1" by (simp only: of_nat_le_iff)
    then have "fl_mag (of_nat c) \<le> fl_mag (of_nat n1)" by (intro fl_mag_mono) simp_all
    with rc r show False by (simp add: f1_def)
  qed
  with res cq show ?thesis by (simp add: x_def)
qed

text \<open>
  With a maximum load factor that is a whole number the loop is not entered when
  \<^verbatim>\<open>rehash\<close> is called with twice the size.
\<close>

lemma rehash_no_loop:
  assumes c: "0 < c" "c \<le> 2 ^ 24" and s: "2 * s \<le> 2 ^ 64"
  shows "\<not> flt_less (float_of_size (if 2 * s = 0 then 1 else 2 * s))
            (flt_div (float_of_size s) (Finite (of_nat c)))"
proof (cases "s = 0")
  case True
  then show ?thesis
    using c(1) by (simp add: float_of_size_0 float_of_size_1 flt_div_zero flt_cmp_Finite)
next
  case False
  define fs where "fs = fl_mag (of_nat s)"
  have s64: "s \<le> 2 ^ 64" using s by simp
  have "(1 :: rat) \<le> of_nat s" using False by simp
  then have fs1: "1 \<le> fs" unfolding fs_def by (rule fl_mag_ge_1)
  have fss: "float_of_size s = Finite fs" using float_of_size_Finite [OF s64] by (simp add: fs_def)
  have f2: "float_of_size (2 * s) = Finite (fl_mag (of_nat (2 * s)))"
    using s by (rule float_of_size_Finite)
  have fs64: "fs \<le> 2 ^ 64" unfolding fs_def using s64 by (rule fl_mag_size)
  have c1: "(1 :: rat) \<le> of_nat c" using c(1) by simp
  have "fs / of_nat c \<le> fs / 1" using fs1 c1 by (intro divide_left_mono) simp_all
  then have qle: "fs / of_nat c \<le> fs" by simp
  have q0: "0 \<le> fs / of_nat c" using fs1 by simp
  have "fl_mag (fs / of_nat c) \<le> fl_mag fs" using q0 qle by (rule fl_mag_mono)
  moreover have "fl_mag fs = fs" unfolding fs_def by (intro fl_mag_idem) simp
  ultimately have ql: "fl_mag (fs / of_nat c) \<le> fs" by simp
  with fs64 have "fl_mag (fs / of_nat c) < 2 ^ 128" by simp
  with q0 have rd: "round32 (fs / of_nat c) = Finite (fl_mag (fs / of_nat c))" by (rule round32_Finite)
  have d: "flt_div (Finite fs) (Finite (of_nat c)) = Finite (fl_mag (fs / of_nat c))"
    using fs1 c(1) by (simp add: flt_div_Finite rd)
  have "s \<le> 2 * s" by simp
  then have "(of_nat s :: rat) \<le> of_nat (2 * s)" by (simp only: of_nat_le_iff)
  then have "fs \<le> fl_mag (of_nat (2 * s))" unfolding fs_def by (intro fl_mag_mono) simp_all
  with ql have "fl_mag (fs / of_nat c) \<le> fl_mag (of_nat (2 * s))" by simp
  with False show ?thesis
    by (simp add: fss f2 d flt_cmp_Finite del: of_nat_mult)
qed

text \<open>
  The check of the load factor on a map with fewer than \<open>2^24\<close> pairs: when the load
  factor as \<^verbatim>\<open>float\<close> is below a maximum \<open>c\<close> that is a whole number, there is room for
  one more pair; and a size of at most \<open>c\<close> times the bucket count has a load factor as
  \<^verbatim>\<open>float\<close> of at most \<open>c\<close>.
\<close>

lemma float_of_size_cases:
  "float_of_size b = PosInf \<or> float_of_size b = Finite (fl_mag (of_nat b))"
  by (simp add: float_of_size_def round32_def)



lemma float_of_size_ge_2: "2 \<le> n \<Longrightarrow> \<not> flt_less (float_of_size n) (Finite 2)"
proof -
  assume "2 \<le> n"
  then have "(of_nat 2 :: rat) \<le> of_nat n" by (simp only: of_nat_le_iff)
  then have "fl_mag (of_nat 2) \<le> fl_mag (of_nat n)" by (intro fl_mag_mono) simp_all
  then have "2 \<le> fl_mag (of_nat n)" using fl_mag_nat [of 2] by simp
  with float_of_size_cases [of n] show ?thesis
    by (auto simp: flt_less_def)
qed

subsection \<open>\<open>rehash\<close>\<close>

lemma mset_concat_update:
  "i < length xs \<Longrightarrow>
   mset (concat (map f (xs[i := y]))) + mset (f (xs ! i)) = mset (concat (map f xs)) + mset (f y)"
proof (induction xs arbitrary: i)
  case Nil
  then show ?case by simp
next
  case (Cons x xs)
  show ?case
  proof (cases i)
    case 0
    then show ?thesis by simp
  next
    case (Suc j)
    with Cons.prems have "j < length xs" by simp
    from Cons.IH [OF this] Suc show ?thesis
      by (simp add: ac_simps)
  qed
qed

lemma all_nodes_push:
  assumes "i < length ls" "l_nodes l' = n # l_nodes (ls ! i)"
  shows "mset (all_nodes (ls[i := l'])) = add_mset n (mset (all_nodes ls))"
  using mset_concat_update [OF assms(1), of l_nodes l'] assms(2)
  by (simp add: all_nodes_def)

lemma stored_pairs_all_nodes:
  "length (v_cells (m_A m)) = bucket_count m \<Longrightarrow>
   stored_pairs m = map snd (all_nodes (v_cells (m_A m)))"
proof -
  assume len: "length (v_cells (m_A m)) = bucket_count m"
  have cp: "chain_pairs = (\<lambda>l::('a \<times> 'b) ForwardList. map snd (l_nodes l))"
    by (rule ext) (simp add: chain_pairs_def)
  have "map snd (concat (map l_nodes xs)) = concat (map chain_pairs xs)" for xs :: "('a \<times> 'b) ForwardList list"
    by (induction xs) (simp_all add: chain_pairs_def)
  with len show ?thesis
    by (simp add: stored_pairs_def live_buckets_def all_nodes_def)
qed

lemma heap_ok_push:
  assumes "heap_ok ls hp" "i < length ls" "l_nodes l' = (hp, p) # l_nodes (ls ! i)"
  shows "heap_ok (ls[i := l']) (Suc hp)"
proof -
  have m: "mset (map fst (all_nodes (ls[i := l']))) = mset (hp # map fst (all_nodes ls))"
  proof -
    have "image_mset fst (mset (all_nodes (ls[i := l']))) =
        image_mset fst (add_mset (hp, p) (mset (all_nodes ls)))"
      using all_nodes_push [OF assms(2,3)] by (rule arg_cong)
    then show ?thesis by simp
  qed
  have d: "distinct (hp # map fst (all_nodes ls))"
    using assms(1) by (auto simp: heap_ok_def)
  have "distinct (map fst (all_nodes (ls[i := l'])))"
    using mset_eq_imp_distinct_iff [OF m] d by simp
  moreover have "set (map fst (all_nodes (ls[i := l']))) = set (hp # map fst (all_nodes ls))"
    using mset_eq_setD [OF m] .
  ultimately show ?thesis
    using assms(1) by (auto simp: heap_ok_def less_Suc_eq)
qed

lemma rehash_chain_inv:
  "buckets_inv hs t hp \<Longrightarrow>
   \<exists>t' hp'. rehash_chain hs ns (t, hp) = Inr (t', hp') \<and> buckets_inv hs t' hp' \<and>
     v_data t' = v_data t \<and> v_currentSize t' = v_currentSize t \<and>
     mset (map snd (all_nodes (v_cells t'))) = mset (map snd ns) + mset (map snd (all_nodes (v_cells t)))"
proof (induction ns arbitrary: t hp)
  case Nil
  then show ?case by simp
next
  case (Cons n ns)
  define sz where "sz = v_currentSize t"
  define index where "index = hs (fst (snd n)) mod sz"
  define l where "l = v_cells t ! index"
  define l' where "l' = \<lparr>l_nodes = (hp, snd n) # l_nodes l, l_size = size_incr (l_size l)\<rparr>"
  define t1 where "t1 = t\<lparr>v_cells := (v_cells t)[index := l']\<rparr>"
  from Cons.prems have sz: "0 < sz" "length (v_cells t) = sz" "v_data t \<noteq> None"
    by (auto simp: buckets_inv_def sz_def)
  then have idx: "index < length (v_cells t)" by (simp add: index_def)
  have nodes: "l_nodes l' = (hp, snd n) # l_nodes (v_cells t ! index)"
    by (simp add: l'_def l_def)
  have hok: "heap_ok (v_cells t1) (Suc hp)"
    using heap_ok_push [OF _ idx nodes] Cons.prems by (simp add: buckets_inv_def t1_def)
  have bk: "\<forall>q \<in> set (chain_pairs (v_cells t1 ! j)). hs (fst q) mod sz = j" if "j < sz" for j
  proof (cases "j = index")
    case True
    with that Cons.prems idx show ?thesis
      by (auto simp: t1_def chain_pairs_def l'_def l_def buckets_inv_def sz_def index_def)
  next
    case False
    with that Cons.prems idx show ?thesis
      by (auto simp: t1_def buckets_inv_def sz_def)
  qed
  have inv1: "buckets_inv hs t1 (Suc hp)"
    using Cons.prems hok bk by (simp add: buckets_inv_def t1_def sz_def)
  from Cons.IH [OF inv1] obtain t' hp' where
    r: "rehash_chain hs ns (t1, Suc hp) = Inr (t', hp')" "buckets_inv hs t' hp'"
       "v_data t' = v_data t1" "v_currentSize t' = v_currentSize t1"
       "mset (map snd (all_nodes (v_cells t'))) = mset (map snd ns) + mset (map snd (all_nodes (v_cells t1)))"
    by auto
  from sz(3) obtain dp where dp: "v_data t = Some dp" by auto
  have step: "rehash_chain hs (n # ns) (t, hp) = rehash_chain hs ns (t1, Suc hp)"
    using sz(1,2) idx dp
    by (simp add: Vector_size_def Vector_index_def ForwardList_push_front_def alloc_def
        sz_def [symmetric] index_def [symmetric] l_def [symmetric] l'_def [symmetric] t1_def [symmetric] Let_def)
  have "mset (all_nodes (v_cells t1)) = add_mset (hp, snd n) (mset (all_nodes (v_cells t)))"
    using all_nodes_push [OF idx nodes] by (simp add: t1_def)
  then have "image_mset snd (mset (all_nodes (v_cells t1))) =
      image_mset snd (add_mset (hp, snd n) (mset (all_nodes (v_cells t))))"
    by (rule arg_cong)
  then have "mset (map snd (all_nodes (v_cells t1))) = add_mset (snd n) (mset (map snd (all_nodes (v_cells t))))"
    by simp
  with r(5) have ms: "mset (map snd (all_nodes (v_cells t'))) =
      mset (map snd (n # ns)) + mset (map snd (all_nodes (v_cells t)))"
    by simp
  have same: "v_data t' = v_data t" "v_currentSize t' = v_currentSize t"
    using r(3,4) by (simp_all add: t1_def)
  have res: "rehash_chain hs (n # ns) (t, hp) = Inr (t', hp')"
    using step r(1) by (rule trans)
  show ?case
    by (rule exI [of _ t'], rule exI [of _ hp']) (intro conjI res r(2) same ms)
qed

lemma rehash_for_inv:
  assumes "\<forall>i \<in> set is. Vector_index a i = Inr (v_cells a ! i)"
  shows "buckets_inv hs t hp \<Longrightarrow>
   \<exists>t' hp'. rehash_for hs a is (t, hp) = Inr (t', hp') \<and> buckets_inv hs t' hp' \<and>
     v_data t' = v_data t \<and> v_currentSize t' = v_currentSize t \<and>
     mset (map snd (all_nodes (v_cells t'))) =
       mset (concat (map (\<lambda>i. chain_pairs (v_cells a ! i)) is)) + mset (map snd (all_nodes (v_cells t)))"
  using assms
proof (induction "is" arbitrary: t hp)
  case Nil
  then show ?case by simp
next
  case (Cons i "is")
  from rehash_chain_inv [OF Cons.prems(1), of "l_nodes (v_cells a ! i)"] obtain t1 hp1 where
    c: "rehash_chain hs (l_nodes (v_cells a ! i)) (t, hp) = Inr (t1, hp1)" "buckets_inv hs t1 hp1"
       "v_data t1 = v_data t" "v_currentSize t1 = v_currentSize t"
       "mset (map snd (all_nodes (v_cells t1))) =
          mset (map snd (l_nodes (v_cells a ! i))) + mset (map snd (all_nodes (v_cells t)))"
    by blast
  from Cons.prems(2) have rest: "\<forall>i \<in> set is. Vector_index a i = Inr (v_cells a ! i)" by simp
  from Cons.IH [OF c(2) rest] obtain t' hp' where
    r: "rehash_for hs a is (t1, hp1) = Inr (t', hp')" "buckets_inv hs t' hp'"
       "v_data t' = v_data t1" "v_currentSize t' = v_currentSize t1"
       "mset (map snd (all_nodes (v_cells t'))) =
          mset (concat (map (\<lambda>i. chain_pairs (v_cells a ! i)) is)) + mset (map snd (all_nodes (v_cells t1)))"
    by blast
  from Cons.prems(2) have rd: "Vector_index a i = Inr (v_cells a ! i)" by simp
  have res: "rehash_for hs a (i # is) (t, hp) = Inr (t', hp')"
    by (simp add: rd c(1) r(1))
  have ms: "mset (map snd (all_nodes (v_cells t'))) =
       mset (concat (map (\<lambda>i. chain_pairs (v_cells a ! i)) (i # is))) + mset (map snd (all_nodes (v_cells t)))"
    unfolding r(5) c(5) by (simp add: chain_pairs_def)
  have same: "v_data t' = v_data t" "v_currentSize t' = v_currentSize t"
    using r(3,4) c(3,4) by simp_all
  show ?case
    by (rule exI [of _ t'], rule exI [of _ hp']) (intro conjI res r(2) same ms)
qed

lemma Vector_index_live:
  "Vector_inv v \<Longrightarrow> i < v_currentSize v \<Longrightarrow> Vector_index v i = Inr (v_cells v ! i)"
  by (auto simp: Vector_inv_def Vector_index_def)

lemma concat_nth_upt:
  "n \<le> length xs \<Longrightarrow> concat (map (\<lambda>i. f (xs ! i)) [0..<n]) = concat (map f (take n xs))"
proof -
  assume "n \<le> length xs"
  then have "map (\<lambda>i. f (xs ! i)) [0..<n] = map f (take n xs)"
    by (simp add: list_eq_iff_nth_eq)
  then show ?thesis by simp
qed

lemma buckets_inv_fresh:
  "0 < p \<Longrightarrow> buckets_inv hs (fst (Vector_n hp p ForwardList_default)) (snd (Vector_n hp p ForwardList_default))"
  by (simp add: Vector_n_def alloc_def buckets_inv_def heap_ok_def all_nodes_def chain_pairs_def
      ForwardList_default_def)

lemma all_nodes_fresh:
  "all_nodes (v_cells (fst (Vector_n hp p ForwardList_default))) = []"
  by (simp add: Vector_n_def alloc_def all_nodes_def ForwardList_default_def)

lemma rehash_ok:
  assumes vi: "Vector_inv (m_A m)"
    and q: "is_prime q" "q div 2 < 2 ^ 32 - 1"
    and nq: "n \<le> q"
    and hx: "flt_less (float_of_size (if n = 0 then 1 else n))
               (flt_div (float_of_size (m_currentSize m)) (m_max_load_factor m)) \<Longrightarrow>
             flt_le (flt_mul (flt_div (float_of_size (m_currentSize m)) (m_max_load_factor m)) (Finite 2))
               (Finite (of_nat q))"
  shows "\<exists>m' hp'. UnorderedMap_rehash hp m n = Inr (m', hp') \<and>
     buckets_inv (m_h m) (m_A m') hp' \<and>
     is_prime (bucket_count m') \<and> bucket_count m' \<le> q \<and> n \<le> bucket_count m' \<and>
     mset (stored_pairs m') = mset (stored_pairs m) \<and>
     m_h m' = m_h m \<and> m_currentSize m' = m_currentSize m \<and>
     m_max_load_factor m' = m_max_load_factor m"
proof -
  define n1 where "n1 = (if n = 0 then 1 else n)"
  define x where "x = flt_div (float_of_size (m_currentSize m)) (m_max_load_factor m)"
  have q2: "2 \<le> q" using q(1) by (rule is_prime_ge_2)
  have "q div 2 < 4294967295" using q(2) by simp
  then have "q < 18446744073709551616" by linarith
  then have qlt: "q < 2 ^ 64" by simp
  have n1: "0 < n1" "n \<le> n1" "n1 \<le> q"
    using nq q2 by (auto simp: n1_def)
  from rehash_while_result [OF n1(1,3) qlt hx [folded n1_def]] obtain n2 where
    n2: "rehash_while x n1 = Some (Inr n2)" "n1 \<le> n2" "n2 \<le> q"
    unfolding x_def by blast
  from nextPrime_in_range [OF q n2(3)] obtain p where
    p: "nextPrime n2 = Inr p" "is_prime p" "n2 \<le> p" "p \<le> q" by blast
  have p0: "0 < p" using is_prime_ge_2 [OF p(2)] by simp
  define temp where "temp = fst (Vector_n hp p (ForwardList_default :: ('a \<times> 'b) ForwardList))"
  define hp1 where "hp1 = snd (Vector_n hp p (ForwardList_default :: ('a \<times> 'b) ForwardList))"
  have ti: "buckets_inv (m_h m) temp hp1"
    unfolding temp_def hp1_def using p0 by (rule buckets_inv_fresh)
  have rd: "\<forall>i \<in> set [0..<Vector_size (m_A m)]. Vector_index (m_A m) i = Inr (v_cells (m_A m) ! i)"
    using Vector_index_live [OF vi] by (simp add: Vector_size_def)
  from rehash_for_inv [OF rd ti] obtain t' hp' where
    r: "rehash_for (m_h m) (m_A m) [0..<Vector_size (m_A m)] (temp, hp1) = Inr (t', hp')"
       "buckets_inv (m_h m) t' hp'" "v_currentSize t' = v_currentSize temp"
       "mset (map snd (all_nodes (v_cells t'))) =
          mset (concat (map (\<lambda>i. chain_pairs (v_cells (m_A m) ! i)) [0..<Vector_size (m_A m)]))
          + mset (map snd (all_nodes (v_cells temp)))"
    by blast
  define m' where "m' = m\<lparr>m_A := fst (Vector_move_assign (m_A m) t')\<rparr>"
  have A': "m_A m' = t'"
    by (cases t') (simp add: m'_def Vector_move_assign_def)
  have vn: "Vector_n hp p (ForwardList_default :: ('a \<times> 'b) ForwardList) = (temp, hp1)"
    by (simp add: temp_def hp1_def)
  have res: "UnorderedMap_rehash hp m n = Inr (m', hp')"
    by (simp add: UnorderedMap_rehash_def n1_def [symmetric] x_def [symmetric]
        n2(1) p(1) vn r(1) m'_def)
  have bc: "bucket_count m' = p"
    using r(3) p0 by (simp add: bucket_count_def Vector_size_def A' temp_def Vector_n_def alloc_def)
  have len: "length (v_cells (m_A m')) = bucket_count m'"
    using r(2) by (simp add: buckets_inv_def A' bucket_count_def Vector_size_def)
  have le: "Vector_size (m_A m) \<le> length (v_cells (m_A m))"
    using vi by (simp add: Vector_inv_def Vector_size_def)
  have "mset (stored_pairs m') = mset (map snd (all_nodes (v_cells t')))"
    using stored_pairs_all_nodes [OF len] by (simp add: A')
  also have "\<dots> = mset (concat (map chain_pairs (take (Vector_size (m_A m)) (v_cells (m_A m)))))"
    unfolding r(4) concat_nth_upt [OF le] by (simp add: temp_def all_nodes_fresh)
  also have "\<dots> = mset (stored_pairs m)"
    by (simp add: stored_pairs_def live_buckets_def bucket_count_def)
  finally have ms: "mset (stored_pairs m') = mset (stored_pairs m)" .
  have "n \<le> p" using n1(2) n2(2) p(3) by linarith
  moreover have "buckets_inv (m_h m) (m_A m') hp'" using r(2) by (simp add: A')
  moreover have "m_h m' = m_h m" "m_currentSize m' = m_currentSize m"
     "m_max_load_factor m' = m_max_load_factor m"
    by (simp_all add: m'_def)
  ultimately show ?thesis
    using res ms p(2,4) bc by auto
qed

subsection \<open>Evaluation of the constructor and of the first insertion\<close>

lemma nextPrime_Suc_0: "nextPrime (Suc 0) = Inr 2"
  by (simp add: nextPrime_def)

lemma UnorderedMap_default_eq:
  "UnorderedMap_default hp hs =
     Inr (\<lparr>m_A = \<lparr>v_data = Some hp, v_cells = [ForwardList_default, ForwardList_default],
                  v_currentSize = 2, v_currentCapacity = 2\<rparr>,
           m_h = hs, m_currentSize = 0, m_max_load_factor = Finite 1\<rparr>, Suc hp)"
  by (simp add: UnorderedMap_default_def UnorderedMap_n_def Vector_n_def alloc_def numeral_2_eq_2
      nextPrime_Suc_0)

lemma insert_first:
  assumes "0 < ml"
  shows "UnorderedMap_insert hp1
     \<lparr>m_A = \<lparr>v_data = Some hp, v_cells = [ForwardList_default, ForwardList_default],
             v_currentSize = 2, v_currentCapacity = 2\<rparr>,
      m_h = hs, m_currentSize = 0, m_max_load_factor = Finite ml\<rparr> (k, v) =
   Inr ((\<lparr>it_bucket = hs k mod 2, it_pos = None\<rparr>, True),
        \<lparr>m_A = \<lparr>v_data = Some hp,
                v_cells = [ForwardList_default, ForwardList_default]
                  [hs k mod 2 := \<lparr>l_nodes = [(hp1, (k, v))], l_size = 1\<rparr>],
                v_currentSize = 2, v_currentCapacity = 2\<rparr>,
           m_h = hs, m_currentSize = 1, m_max_load_factor = Finite ml\<rparr>, Suc hp1)"
proof -
  have "hs k mod 2 = 0 \<or> hs k mod 2 = 1" by arith
  then show ?thesis
  proof
    assume i: "hs k mod 2 = 0"
    show ?thesis
      using assms
      by (simp add: UnorderedMap_insert_def grow_if_loaded_def load_factor_def float_of_size_0
          float_of_size_2 flt_div_zero flt_cmp_Finite bucket_count_def Vector_size_def Vector_index_def UnorderedMap_count_def
          UnorderedMap_find_const_def ForwardList_default_def UnorderedMap_end_def
          make_iterator_def ForwardList_push_front_def alloc_def size_incr_def
          ForwardList_begin_def head_def i)
  next
    assume i: "hs k mod 2 = 1"
    show ?thesis
      using assms
      by (simp add: UnorderedMap_insert_def grow_if_loaded_def load_factor_def float_of_size_0
          float_of_size_2 flt_div_zero flt_cmp_Finite bucket_count_def Vector_size_def Vector_index_def UnorderedMap_count_def
          UnorderedMap_find_const_def ForwardList_default_def UnorderedMap_end_def
          make_iterator_def ForwardList_push_front_def alloc_def size_incr_def
          ForwardList_begin_def head_def i)
  qed
qed

lemmas insert_first_default = insert_first [of 1, OF zero_less_one]


text \<open>A chain that is assigned to a default-constructed chain arrives in reverse order.\<close>

lemma push_front_all_pairs:
  "chain_pairs (fst (push_front_all hp ns l)) = rev (map snd ns) @ chain_pairs l"
  by (induction ns arbitrary: hp l)
    (simp_all add: ForwardList_push_front_def alloc_def chain_pairs_def)

lemma ForwardList_assign_rev:
  "chain_pairs (fst (ForwardList_assign hp ForwardList_default rhs)) = rev (chain_pairs rhs)"
proof -
  have "chain_pairs (fst (push_front_all hp (l_nodes rhs) ForwardList_default))
      = rev (map snd (l_nodes rhs)) @ chain_pairs ForwardList_default"
    by (rule push_front_all_pairs)
  then show ?thesis
    by (simp add: ForwardList_assign_def ForwardList_empty_def ForwardList_default_def head_def
        chain_pairs_def)
qed

lemma size_decr_0: "size_decr 0 = 18446744073709551615"
  by (simp add: size_decr_def)

lemma remove_while_nodes:
  "fst (remove_while val cur rest sz) = cur # filter (\<lambda>n. snd n \<noteq> val) rest"
  by (induction val cur rest sz rule: remove_while.induct) (auto split: prod.splits)

subsection \<open>\<open>insert\<close> and \<open>operator[]\<close>\<close>

lemma buckets_inv_push:
  assumes inv: "buckets_inv hs t hp"
    and idx: "index = hs (fst p) mod v_currentSize t"
    and l': "l' = \<lparr>l_nodes = (hp, p) # l_nodes (v_cells t ! index), l_size = sz\<rparr>"
  shows "buckets_inv hs (t\<lparr>v_cells := (v_cells t)[index := l']\<rparr>) (Suc hp)"
    and "mset (all_nodes ((v_cells t)[index := l'])) = add_mset (hp, p) (mset (all_nodes (v_cells t)))"
proof -
  from inv have sz: "0 < v_currentSize t" "length (v_cells t) = v_currentSize t"
    by (auto simp: buckets_inv_def)
  then have i: "index < length (v_cells t)" by (simp add: idx)
  have nodes: "l_nodes l' = (hp, p) # l_nodes (v_cells t ! index)"
    by (simp add: l')
  show "mset (all_nodes ((v_cells t)[index := l'])) = add_mset (hp, p) (mset (all_nodes (v_cells t)))"
    using i nodes by (rule all_nodes_push)
  have hok: "heap_ok ((v_cells t)[index := l']) (Suc hp)"
    using heap_ok_push [OF _ i nodes] inv by (simp add: buckets_inv_def)
  have bk: "\<forall>q \<in> set (chain_pairs ((v_cells t)[index := l'] ! j)). hs (fst q) mod v_currentSize t = j"
    if "j < v_currentSize t" for j
  proof (cases "j = index")
    case True
    with that inv i show ?thesis
      by (auto simp: chain_pairs_def l' buckets_inv_def idx)
  next
    case False
    with that inv i show ?thesis
      by (auto simp: buckets_inv_def)
  qed
  show "buckets_inv hs (t\<lparr>v_cells := (v_cells t)[index := l']\<rparr>) (Suc hp)"
    using inv hok bk by (simp add: buckets_inv_def)
qed

lemma buckets_inv_Vector_inv: "buckets_inv hs a hp \<Longrightarrow> Vector_inv a \<and> 0 < v_currentSize a"
  by (auto simp: buckets_inv_def Vector_inv_def)

lemma find_const_while_Some_iff:
  "(\<exists>a. find_const_while k ns = Some a) \<longleftrightarrow> k \<in> fst ` snd ` set ns"
  by (induction ns) auto

lemma find_const_while_None_iff:
  "find_const_while k ns = None \<longleftrightarrow> k \<notin> fst ` snd ` set ns"
  using find_const_while_Some_iff [of k ns] by (cases "find_const_while k ns") auto

lemma insert_while_found:
  "find_const_while k ns = Some a \<Longrightarrow> insert_while k ns = Inr (Some a)"
  by (induction ns) (auto split: if_splits)


lemma find_do_while_found:
  "find_const_while k ns = Some a \<Longrightarrow> find_do_while k ns = Inr (Some a)"
proof (induction ns)
  case Nil
  then show ?case by simp
next
  case (Cons n ns)
  then show ?case
    by (cases ns) (auto simp: head_def split: if_splits)
qed

lemma find_const_while_node:
  "find_const_while k ns = Some a \<Longrightarrow> \<exists>v. (a, (k, v)) \<in> set ns"
  by (induction ns) (auto split: if_splits)

lemma insert_after_grow:
  assumes g: "grow_if_loaded hp m = Inr (m1, hp1)"
    and vi: "Vector_inv (m_A m1)" and bc: "0 < bucket_count m1"
  shows "UnorderedMap_insert hp m (k, v) =
    (case find_const_while k (l_nodes (v_cells (m_A m1) ! (m_h m1 k mod bucket_count m1))) of
       Some a \<Rightarrow> Inr ((make_iterator (m_h m1 k mod bucket_count m1) (Some a), False), m1, hp1)
     | None \<Rightarrow>
         Inr ((make_iterator (m_h m1 k mod bucket_count m1)
                 (head (l_nodes (v_cells (m_A m1) ! (m_h m1 k mod bucket_count m1)))), True),
              pushed hp1 m1 (k, v), Suc hp1))"
proof -
  define index where "index = m_h m1 k mod bucket_count m1"
  define l where "l = v_cells (m_A m1) ! index"
  from bc have "index < bucket_count m1" by (simp add: index_def)
  then have rd: "Vector_index (m_A m1) index = Inr l"
    using Vector_index_live [OF vi, of index] by (simp add: bucket_count_def Vector_size_def l_def)
  show ?thesis
  proof (cases "find_const_while k (l_nodes l)")
    case None
    then have "UnorderedMap_count m1 k = Inr 0"
      using bc rd by (simp add: UnorderedMap_count_def UnorderedMap_find_const_def index_def [symmetric])
    with None bc rd show ?thesis
      by (simp add: UnorderedMap_insert_def g index_def [symmetric] l_def [symmetric] pushed_def
          ForwardList_push_front_def alloc_def ForwardList_begin_def Let_def)
  next
    case (Some a)
    then have "UnorderedMap_count m1 k = Inr 1"
      using bc rd by (simp add: UnorderedMap_count_def UnorderedMap_find_const_def index_def [symmetric]
          UnorderedMap_end_def make_iterator_def)
    with Some bc rd insert_while_found [OF Some] show ?thesis
      by (simp add: UnorderedMap_insert_def g index_def [symmetric] l_def [symmetric])
  qed
qed


lemma size_mul2_small: "n * 2 < 2 ^ 64 \<Longrightarrow> size_mul2 n = 2 * n"
  by (simp add: size_mul2_def mult.commute)

lemma prime_bound_size: "q div 2 < 2 ^ 32 - 1 \<Longrightarrow> (q :: nat) < 2 ^ 64"
proof -
  assume "q div 2 < 2 ^ 32 - 1"
  then have "q div 2 < 4294967295" by simp
  then have "q < 18446744073709551616" by linarith
  then show ?thesis by simp
qed

text \<open>
  The check of the load factor that \<^verbatim>\<open>insert\<close> and \<^verbatim>\<open>operator[]\<close> start with, for a
  maximum load factor that is a whole number: it returns, and either the load factor is
  below the maximum and the map is as it was, or the map was rehashed to at least twice
  its size.
\<close>

lemma grow_if_loaded_cases:
  assumes vi: "Vector_inv (m_A m)" and bc: "0 < bucket_count m"
    and mlf: "m_max_load_factor m = Finite (of_nat c)" "0 < c" "c \<le> 2 ^ 24"
    and q: "is_prime q" "q div 2 < 2 ^ 32 - 1" "2 * m_currentSize m \<le> q"
  shows "\<exists>m1 hp1. grow_if_loaded hp m = Inr (m1, hp1) \<and>
     (\<not> flt_ge (load_factor m) (m_max_load_factor m) \<and> m1 = m \<and> hp1 = hp \<or>
      buckets_inv (m_h m) (m_A m1) hp1 \<and> mset (stored_pairs m1) = mset (stored_pairs m) \<and>
      2 * m_currentSize m \<le> bucket_count m1 \<and> is_prime (bucket_count m1)) \<and>
     Vector_inv (m_A m1) \<and> 0 < bucket_count m1 \<and>
     m_h m1 = m_h m \<and> m_currentSize m1 = m_currentSize m \<and>
     m_max_load_factor m1 = m_max_load_factor m"
proof (cases "flt_ge (load_factor m) (m_max_load_factor m)")
  case False
  with vi bc show ?thesis
    by (simp add: grow_if_loaded_def)
next
  case True
  have q64: "q < 2 ^ 64" using q(2) by (rule prime_bound_size)
  with q(3) have "m_currentSize m * 2 < 2 ^ 64" by simp
  then have n: "size_mul2 (m_currentSize m) = 2 * m_currentSize m"
    by (rule size_mul2_small)
  have s64: "2 * m_currentSize m \<le> 2 ^ 64" using q64 q(3) by simp
  have hx: "flt_less (float_of_size (if 2 * m_currentSize m = 0 then 1 else 2 * m_currentSize m))
       (flt_div (float_of_size (m_currentSize m)) (m_max_load_factor m)) \<Longrightarrow>
     flt_le (flt_mul (flt_div (float_of_size (m_currentSize m)) (m_max_load_factor m)) (Finite 2))
       (Finite (of_nat q))"
    using rehash_no_loop [OF mlf(2,3) s64] by (simp only: mlf(1))
  from rehash_ok [OF vi q(1,2) q(3) hx, of hp] obtain m1 hp1 where
    r: "UnorderedMap_rehash hp m (2 * m_currentSize m) = Inr (m1, hp1)"
       "buckets_inv (m_h m) (m_A m1) hp1" "2 * m_currentSize m \<le> bucket_count m1"
       "mset (stored_pairs m1) = mset (stored_pairs m)" "is_prime (bucket_count m1)"
       "m_h m1 = m_h m" "m_currentSize m1 = m_currentSize m"
       "m_max_load_factor m1 = m_max_load_factor m"
    by blast
  have g: "grow_if_loaded hp m = Inr (m1, hp1)"
    using True r(1) n by (simp add: grow_if_loaded_def)
  have v1: "Vector_inv (m_A m1)" "0 < bucket_count m1"
    using buckets_inv_Vector_inv [OF r(2)] by (simp_all add: bucket_count_def Vector_size_def)
  show ?thesis
    by (rule exI [of _ m1], rule exI [of _ hp1]) (intro conjI g disjI2 r(2,3,4,5,6,7,8) v1)
qed



lemma size_incr_le: "size_incr n \<le> Suc n"
  by (simp add: size_incr_def)

lemma pushed_fields:
  "bucket_count (pushed hp m p) = bucket_count m"
  "m_currentSize (pushed hp m p) = size_incr (m_currentSize m)"
  "m_max_load_factor (pushed hp m p) = m_max_load_factor m"
  "m_h (pushed hp m p) = m_h m"
  by (simp_all add: pushed_def bucket_count_def Vector_size_def Let_def)

lemma grow_after_first:
  "grow_if_loaded hp \<lparr>m_A = \<lparr>v_data = d, v_cells = cs,
                v_currentSize = 2, v_currentCapacity = 2\<rparr>,
           m_h = hs, m_currentSize = 1, m_max_load_factor = Finite 1\<rparr>
     = Inr (\<lparr>m_A = \<lparr>v_data = d, v_cells = cs,
                v_currentSize = 2, v_currentCapacity = 2\<rparr>,
           m_h = hs, m_currentSize = 1, m_max_load_factor = Finite 1\<rparr>, hp)"
  by (simp add: grow_if_loaded_def load_factor_def bucket_count_def Vector_size_def
      float_of_size_1 float_of_size_2 flt_div_Finite round32_half flt_cmp_Finite)

lemma example_map_reached:
  "bind_err (UnorderedMap_default 0 (\<lambda>k :: nat. k)) (\<lambda>(m, hp). insert_all hp m [(1, 10), (2, 20 :: nat)])
     = Inr (example_map, 3)"
  apply (simp only: UnorderedMap_default_eq bind_err_simps prod.case insert_all.simps
      insert_first_default)
  apply (subst insert_after_grow [OF grow_after_first])
    apply (simp add: Vector_inv_def)
   apply (simp add: bucket_count_def Vector_size_def)
  apply (simp add: bucket_count_def Vector_size_def ForwardList_default_def pushed_def
      example_map_def size_incr_def head_def)
  done

subsection \<open>The invariant of the map\<close>

lemma map_of_mset:
  assumes "mset xs = mset ys" "distinct (map fst xs)"
  shows "distinct (map fst ys)" and "map_of xs = map_of ys"
proof -
  have "image_mset fst (mset xs) = image_mset fst (mset ys)"
    using assms(1) by (rule arg_cong)
  then have "mset (map fst xs) = mset (map fst ys)"
    by simp
  then show d: "distinct (map fst ys)"
    using assms(2) mset_eq_imp_distinct_iff by blast
  have "set xs = set ys" using assms(1) by (rule mset_eq_setD)
  with assms(2) d show "map_of xs = map_of ys"
    by (simp add: map_of_inject_set)
qed

lemma stored_pairs_cells:
  "length (v_cells (m_A m)) = bucket_count m \<Longrightarrow>
   stored_pairs m = concat (map chain_pairs (v_cells (m_A m)))"
  by (simp add: stored_pairs_def live_buckets_def)

lemma map_inv_D:
  assumes "map_inv m hp"
  shows "buckets_inv (m_h m) (m_A m) hp" "distinct (map fst (stored_pairs m))"
    "m_currentSize m = length (stored_pairs m)" "Vector_inv (m_A m)" "0 < bucket_count m"
    "length (v_cells (m_A m)) = bucket_count m"
  using assms buckets_inv_Vector_inv [of "m_h m" "m_A m" hp]
  by (auto simp: map_inv_def bucket_count_def Vector_size_def buckets_inv_def)

lemma buckets_inv_length:
  "buckets_inv (m_h m) (m_A m) hp \<Longrightarrow> length (v_cells (m_A m)) = bucket_count m"
  by (simp add: buckets_inv_def bucket_count_def Vector_size_def)

lemma stored_in_bucket:
  assumes "buckets_inv (m_h m) (m_A m) hp" "p \<in> set (stored_pairs m)"
  shows "p \<in> set (chain_pairs (v_cells (m_A m) ! (m_h m (fst p) mod bucket_count m)))"
proof -
  note len = buckets_inv_length [OF assms(1)]
  from assms(2) obtain l where l: "l \<in> set (v_cells (m_A m))" "p \<in> set (chain_pairs l)"
    by (auto simp: stored_pairs_cells [OF len])
  then obtain j where j: "j < length (v_cells (m_A m))" "v_cells (m_A m) ! j = l"
    by (auto simp: in_set_conv_nth)
  with l(2) assms(1) len have "m_h m (fst p) mod bucket_count m = j"
    by (auto simp: buckets_inv_def bucket_count_def Vector_size_def)
  with j l(2) show ?thesis by simp
qed

lemma bucket_in_stored:
  assumes "buckets_inv (m_h m) (m_A m) hp" "j < bucket_count m"
    "p \<in> set (chain_pairs (v_cells (m_A m) ! j))"
  shows "p \<in> set (stored_pairs m)"
proof -
  note len = buckets_inv_length [OF assms(1)]
  from assms(2) len have "v_cells (m_A m) ! j \<in> set (v_cells (m_A m))" by simp
  with assms(3) show ?thesis
    by (auto simp: stored_pairs_cells [OF len])
qed

lemma buckets_inv_buckets_ok: "buckets_inv (m_h m) (m_A m) hp \<Longrightarrow> buckets_ok m"
  by (simp add: buckets_inv_def buckets_ok_def bucket_count_def Vector_size_def)

lemma key_stored_iff:
  assumes "map_inv m hp"
  shows "find_const_while k (l_nodes (v_cells (m_A m) ! (m_h m k mod bucket_count m))) = None
    \<longleftrightarrow> k \<notin> fst ` set (stored_pairs m)"
proof -
  note d = map_inv_D [OF assms]
  define j where "j = m_h m k mod bucket_count m"
  have j: "j < bucket_count m" using d(5) by (simp add: j_def)
  have "k \<in> fst ` set (chain_pairs (v_cells (m_A m) ! j)) \<longleftrightarrow> k \<in> fst ` set (stored_pairs m)"
  proof
    assume "k \<in> fst ` set (chain_pairs (v_cells (m_A m) ! j))"
    then show "k \<in> fst ` set (stored_pairs m)"
      using bucket_in_stored [OF d(1) j] by auto
  next
    assume "k \<in> fst ` set (stored_pairs m)"
    then obtain p where p: "p \<in> set (stored_pairs m)" "fst p = k" by auto
    from stored_in_bucket [OF d(1) p(1)] p(2) show "k \<in> fst ` set (chain_pairs (v_cells (m_A m) ! j))"
      by (auto simp: j_def)
  qed
  then show ?thesis
    by (simp add: find_const_while_None_iff chain_pairs_def j_def [symmetric] image_image)
qed

lemma map_inv_pushed:
  assumes inv: "map_inv m hp" and new: "fst p \<notin> fst ` set (stored_pairs m)"
    and small: "m_currentSize m < 2 ^ 64 - 1"
  shows "map_inv (pushed hp m p) (Suc hp)"
    and "mset (stored_pairs (pushed hp m p)) = add_mset p (mset (stored_pairs m))"
proof -
  note d = map_inv_D [OF inv]
  define index where "index = m_h m (fst p) mod bucket_count m"
  define l' where "l' = \<lparr>l_nodes = (hp, p) # l_nodes (v_cells (m_A m) ! index),
     l_size = size_incr (l_size (v_cells (m_A m) ! index))\<rparr>"
  have pm: "pushed hp m p = m\<lparr>m_A := (m_A m)\<lparr>v_cells := (v_cells (m_A m))[index := l']\<rparr>,
      m_currentSize := size_incr (m_currentSize m)\<rparr>"
    by (simp add: pushed_def index_def l'_def Let_def)
  have idx: "index = m_h m (fst p) mod v_currentSize (m_A m)"
    by (simp add: index_def bucket_count_def Vector_size_def)
  note push = buckets_inv_push [OF d(1) idx l'_def]
  have len: "length (v_cells (m_A (pushed hp m p))) = bucket_count (pushed hp m p)"
    using d(6) by (simp add: pm bucket_count_def Vector_size_def)
  have "mset (stored_pairs (pushed hp m p)) = image_mset snd (mset (all_nodes (v_cells (m_A (pushed hp m p)))))"
    by (simp add: stored_pairs_all_nodes [OF len])
  also have "\<dots> = image_mset snd (add_mset (hp, p) (mset (all_nodes (v_cells (m_A m)))))"
    using push(2) by (simp add: pm)
  also have "\<dots> = add_mset p (mset (stored_pairs m))"
    by (simp add: stored_pairs_all_nodes [OF d(6)])
  finally show ms: "mset (stored_pairs (pushed hp m p)) = add_mset p (mset (stored_pairs m))" .
  then have ms': "mset (p # stored_pairs m) = mset (stored_pairs (pushed hp m p))" by simp
  have "distinct (map fst (p # stored_pairs m))"
    using d(2) new by simp
  then have dist: "distinct (map fst (stored_pairs (pushed hp m p)))"
    using map_of_mset(1) [OF ms'] by simp
  have "length (stored_pairs (pushed hp m p)) = Suc (length (stored_pairs m))"
  proof -
    have "size (mset (stored_pairs (pushed hp m p))) = size (add_mset p (mset (stored_pairs m)))"
      using ms by (rule arg_cong)
    then show ?thesis by simp
  qed
  moreover have "size_incr (m_currentSize m) = Suc (m_currentSize m)"
    using small by (simp add: size_incr_def)
  ultimately have cnt: "m_currentSize (pushed hp m p) = length (stored_pairs (pushed hp m p))"
    using d(3) by (simp add: pm)
  show "map_inv (pushed hp m p) (Suc hp)"
    using push(1) dist cnt by (simp add: map_inv_def pm)
qed

lemma grow_if_loaded_inv:
  assumes inv: "map_inv m hp"
    and mlf: "m_max_load_factor m = Finite (of_nat c)" "0 < c" "c \<le> 2 ^ 24"
    and q: "is_prime q" "q div 2 < 2 ^ 32 - 1" "2 * m_currentSize m \<le> q"
  shows "\<exists>m1 hp1. grow_if_loaded hp m = Inr (m1, hp1) \<and> map_inv m1 hp1 \<and>
     mset (stored_pairs m1) = mset (stored_pairs m) \<and> m_h m1 = m_h m \<and>
     m_max_load_factor m1 = m_max_load_factor m"
proof -
  note d = map_inv_D [OF inv]
  from grow_if_loaded_cases [OF d(4,5) mlf q, of hp] obtain m1 hp1 where
    g: "grow_if_loaded hp m = Inr (m1, hp1)"
    and alt: "\<not> flt_ge (load_factor m) (m_max_load_factor m) \<and> m1 = m \<and> hp1 = hp \<or>
      buckets_inv (m_h m) (m_A m1) hp1 \<and> mset (stored_pairs m1) = mset (stored_pairs m) \<and>
      2 * m_currentSize m \<le> bucket_count m1 \<and> is_prime (bucket_count m1)"
    and same: "m_h m1 = m_h m" "m_currentSize m1 = m_currentSize m"
      "m_max_load_factor m1 = m_max_load_factor m"
    by blast
  from alt have "map_inv m1 hp1 \<and> mset (stored_pairs m1) = mset (stored_pairs m)"
  proof
    assume "\<not> flt_ge (load_factor m) (m_max_load_factor m) \<and> m1 = m \<and> hp1 = hp"
    with inv show ?thesis by simp
  next
    assume r: "buckets_inv (m_h m) (m_A m1) hp1 \<and> mset (stored_pairs m1) = mset (stored_pairs m) \<and>
      2 * m_currentSize m \<le> bucket_count m1 \<and> is_prime (bucket_count m1)"
    then have ms: "mset (stored_pairs m) = mset (stored_pairs m1)" by simp
    have "size (mset (stored_pairs m1)) = size (mset (stored_pairs m))"
      using r by simp
    then have "length (stored_pairs m1) = length (stored_pairs m)"
      by simp
    with r map_of_mset(1) [OF ms d(2)] same d(3) show ?thesis
      by (simp add: map_inv_def)
  qed
  with g same show ?thesis by blast
qed

lemma insert_inv:
  assumes inv: "map_inv m hp"
    and mlf: "m_max_load_factor m = Finite (of_nat c)" "0 < c" "c \<le> 2 ^ 24"
    and q: "is_prime q" "q div 2 < 2 ^ 32 - 1" "2 * Suc (m_currentSize m) \<le> q"
  shows "\<exists>r m' hp'. UnorderedMap_insert hp m (k, v) = Inr (r, m', hp') \<and> map_inv m' hp' \<and>
     m_h m' = m_h m \<and> m_max_load_factor m' = m_max_load_factor m \<and>
     m_currentSize m' \<le> Suc (m_currentSize m) \<and>
     map_of (stored_pairs m') =
       (if k \<in> fst ` set (stored_pairs m) then map_of (stored_pairs m)
        else (map_of (stored_pairs m))(k \<mapsto> v))"
proof -
  have q3: "2 * m_currentSize m \<le> q" using q(3) by simp
  from grow_if_loaded_inv [OF inv mlf q(1,2) q3] obtain m1 hp1 where
    g: "grow_if_loaded hp m = Inr (m1, hp1)" and inv1: "map_inv m1 hp1"
    and ms: "mset (stored_pairs m1) = mset (stored_pairs m)"
    and same: "m_h m1 = m_h m" "m_max_load_factor m1 = m_max_load_factor m"
    by blast
  note d = map_inv_D [OF inv]
  note d1 = map_inv_D [OF inv1]
  have ms': "mset (stored_pairs m) = mset (stored_pairs m1)" using ms by simp
  have mo: "map_of (stored_pairs m1) = map_of (stored_pairs m)"
    using map_of_mset(2) [OF ms' d(2)] by simp
  have keys: "fst ` set (stored_pairs m1) = fst ` set (stored_pairs m)"
    using mset_eq_setD [OF ms] by simp
  have "size (mset (stored_pairs m1)) = size (mset (stored_pairs m))"
    using ms by simp
  then have len: "length (stored_pairs m1) = length (stored_pairs m)"
    by simp
  then have cs: "m_currentSize m1 = m_currentSize m" using d(3) d1(3) by simp
  note eq = insert_after_grow [OF g d1(4,5), of k v]
  show ?thesis
  proof (cases "find_const_while k (l_nodes (v_cells (m_A m1) ! (m_h m1 k mod bucket_count m1)))")
    case (Some a)
    then have "k \<in> fst ` set (stored_pairs m)"
      using key_stored_iff [OF inv1, of k] keys by auto
    then have mo1: "map_of (stored_pairs m1) =
        (if k \<in> fst ` set (stored_pairs m) then map_of (stored_pairs m)
         else (map_of (stored_pairs m))(k \<mapsto> v))"
      using mo by simp
    have res: "UnorderedMap_insert hp m (k, v) =
        Inr ((make_iterator (m_h m1 k mod bucket_count m1) (Some a), False), m1, hp1)"
      using eq Some by simp
    have le: "m_currentSize m1 \<le> Suc (m_currentSize m)" using cs by simp
    show ?thesis
      by (rule exI [of _ "(make_iterator (m_h m1 k mod bucket_count m1) (Some a), False)"],
          rule exI [of _ m1], rule exI [of _ hp1])
        (intro conjI res inv1 same le mo1)
  next
    case None
    then have new: "k \<notin> fst ` set (stored_pairs m1)"
      using key_stored_iff [OF inv1, of k] by simp
    have "q < 2 ^ 64" using q(2) by (rule prime_bound_size)
    with q(3) cs have small: "m_currentSize m1 < 2 ^ 64 - 1" by simp
    from new have new': "fst (k, v) \<notin> fst ` set (stored_pairs m1)" by simp
    note p = map_inv_pushed [OF inv1 new' small]
    have ms2: "mset ((k, v) # stored_pairs m1) = mset (stored_pairs (pushed hp1 m1 (k, v)))"
      using p(2) by simp
    have "distinct (map fst ((k, v) # stored_pairs m1))"
      using d1(2) new by simp
    from map_of_mset(2) [OF ms2 this]
    have mo2: "map_of (stored_pairs (pushed hp1 m1 (k, v))) = (map_of (stored_pairs m))(k \<mapsto> v)"
      using mo by simp
    have le: "m_currentSize (pushed hp1 m1 (k, v)) \<le> Suc (m_currentSize m)"
      using size_incr_le [of "m_currentSize m1"] cs by (simp add: pushed_fields)
    have mo3: "map_of (stored_pairs (pushed hp1 m1 (k, v))) =
        (if k \<in> fst ` set (stored_pairs m) then map_of (stored_pairs m)
         else (map_of (stored_pairs m))(k \<mapsto> v))"
      using mo2 new keys by simp
    have res: "UnorderedMap_insert hp m (k, v) =
        Inr ((make_iterator (m_h m1 k mod bucket_count m1)
               (head (l_nodes (v_cells (m_A m1) ! (m_h m1 k mod bucket_count m1)))), True),
             pushed hp1 m1 (k, v), Suc hp1)"
      using eq None by simp
    have same': "m_h (pushed hp1 m1 (k, v)) = m_h m"
      "m_max_load_factor (pushed hp1 m1 (k, v)) = m_max_load_factor m"
      using same by (simp_all add: pushed_fields)
    show ?thesis
      by (rule exI [of _ "(make_iterator (m_h m1 k mod bucket_count m1)
               (head (l_nodes (v_cells (m_A m1) ! (m_h m1 k mod bucket_count m1)))), True)"],
          rule exI [of _ "pushed hp1 m1 (k, v)"], rule exI [of _ "Suc hp1"])
        (intro conjI res p(1) same' le mo3)
  qed
qed

lemma first_wins:
  "map_of ps ++ (if k \<in> dom M then M else M(k \<mapsto> v)) = map_of ((k, v) # ps) ++ M"
  by (rule ext) (auto simp: map_add_def dom_def split: option.splits)

lemma insert_all_inv:
  assumes mlf: "0 < c" "c \<le> 2 ^ 24" and q: "is_prime q" "q div 2 < 2 ^ 32 - 1"
  shows "map_inv m hp \<Longrightarrow> m_max_load_factor m = Finite (of_nat c) \<Longrightarrow>
     2 * (m_currentSize m + length kvs) \<le> q \<Longrightarrow>
     \<exists>m' hp'. insert_all hp m kvs = Inr (m', hp') \<and> map_inv m' hp' \<and> m_h m' = m_h m \<and>
       map_of (stored_pairs m') = map_of kvs ++ map_of (stored_pairs m)"
proof (induction kvs arbitrary: m hp)
  case Nil
  then show ?case by simp
next
  case (Cons p kvs)
  obtain k v where p: "p = (k, v)" by (cases p)
  have room: "2 * Suc (m_currentSize m) \<le> q" using Cons.prems(3) by simp
  from insert_inv [OF Cons.prems(1,2) mlf q room, of k v] obtain r m1 hp1 where
    i: "UnorderedMap_insert hp m (k, v) = Inr (r, m1, hp1)" "map_inv m1 hp1"
       "m_h m1 = m_h m" "m_max_load_factor m1 = m_max_load_factor m"
       "m_currentSize m1 \<le> Suc (m_currentSize m)"
       "map_of (stored_pairs m1) =
         (if k \<in> fst ` set (stored_pairs m) then map_of (stored_pairs m)
          else (map_of (stored_pairs m))(k \<mapsto> v))"
    by blast
  have ml1: "m_max_load_factor m1 = Finite (of_nat c)" using i(4) Cons.prems(2) by simp
  have room1: "2 * (m_currentSize m1 + length kvs) \<le> q"
    using i(5) Cons.prems(3) by simp
  from Cons.IH [OF i(2) ml1 room1] obtain m' hp' where
    r: "insert_all hp1 m1 kvs = Inr (m', hp')" "map_inv m' hp'" "m_h m' = m_h m1"
       "map_of (stored_pairs m') = map_of kvs ++ map_of (stored_pairs m1)"
    by blast
  have res: "insert_all hp m (p # kvs) = Inr (m', hp')"
    by (simp add: p i(1) r(1))
  have "map_of (stored_pairs m1) =
      (if k \<in> dom (map_of (stored_pairs m)) then map_of (stored_pairs m)
       else (map_of (stored_pairs m))(k \<mapsto> v))"
    using i(6) by (simp add: dom_map_of_conv_image_fst)
  then have "map_of kvs ++ map_of (stored_pairs m1) = map_of ((k, v) # kvs) ++ map_of (stored_pairs m)"
    by (simp only: first_wins)
  then have mo: "map_of (stored_pairs m') = map_of (p # kvs) ++ map_of (stored_pairs m)"
    by (simp only: r(4) p)
  have hm: "m_h m' = m_h m" using r(3) i(3) by simp
  show ?case
    by (rule exI [of _ m'], rule exI [of _ hp']) (intro conjI res r(2) hm mo)
qed

lemma UnorderedMap_n_inv:
  assumes q: "is_prime q" "q div 2 < 2 ^ 32 - 1" "n \<le> q"
  shows "\<exists>m hp'. UnorderedMap_n hp n hs = Inr (m, hp') \<and> map_inv m hp' \<and> m_h m = hs \<and>
     stored_pairs m = [] \<and> m_currentSize m = 0 \<and> m_max_load_factor m = Finite 1 \<and>
     is_prime (bucket_count m) \<and> n \<le> bucket_count m"
proof -
  from nextPrime_in_range [OF q] obtain p where
    p: "nextPrime n = Inr p" "is_prime p" "n \<le> p" by blast
  have p0: "0 < p" using is_prime_ge_2 [OF p(2)] by simp
  define a where "a = fst (Vector_n hp p (ForwardList_default :: ('a \<times> 'b) ForwardList))"
  define hp' where "hp' = snd (Vector_n hp p (ForwardList_default :: ('a \<times> 'b) ForwardList))"
  define m :: "('a, 'b) UnorderedMap" where
    "m = \<lparr>m_A = a, m_h = hs, m_currentSize = 0, m_max_load_factor = Finite 1\<rparr>"
  have bi: "buckets_inv hs a hp'"
    unfolding a_def hp'_def using p0 by (rule buckets_inv_fresh)
  have res: "UnorderedMap_n hp n hs = Inr (m, hp')"
    by (simp add: UnorderedMap_n_def p(1) m_def a_def hp'_def split: prod.splits)
  have bc: "bucket_count m = p"
    using p0 by (simp add: m_def a_def bucket_count_def Vector_size_def Vector_n_def alloc_def)
  have len: "length (v_cells (m_A m)) = bucket_count m"
    using bi by (simp add: m_def buckets_inv_def bucket_count_def Vector_size_def)
  have sp: "stored_pairs m = []"
    using stored_pairs_all_nodes [OF len] by (simp add: m_def a_def all_nodes_fresh)
  have "map_inv m hp'"
    using bi sp by (simp add: map_inv_def m_def)
  with res sp bc p(2,3) show ?thesis
    by (simp add: m_def)
qed

lemma find_stored:
  assumes inv: "map_inv m hp" and st: "map_of (stored_pairs m) k = Some v"
  shows "\<exists>a. UnorderedMap_find m k = Inr (make_iterator (m_h m k mod bucket_count m) (Some a)) \<and>
     map_iterator_deref m (make_iterator (m_h m k mod bucket_count m) (Some a)) = Inr (k, v)"
proof -
  note d = map_inv_D [OF inv]
  define index where "index = m_h m k mod bucket_count m"
  define l where "l = v_cells (m_A m) ! index"
  have idx: "index < bucket_count m" using d(5) by (simp add: index_def)
  then have rd: "Vector_index (m_A m) index = Inr l"
    using Vector_index_live [OF d(4), of index] by (simp add: bucket_count_def Vector_size_def l_def)
  from st have "k \<in> dom (map_of (stored_pairs m))" by auto
  then have "k \<in> fst ` set (stored_pairs m)"
    by (simp add: dom_map_of_conv_image_fst)
  then obtain a where a: "find_const_while k (l_nodes l) = Some a"
    using key_stored_iff [OF inv, of k] by (auto simp: index_def l_def)
  from find_const_while_node [OF a] obtain v' where v': "(a, (k, v')) \<in> set (l_nodes l)" by blast
  then have "(k, v') \<in> set (chain_pairs l)"
    by (force simp: chain_pairs_def)
  then have "(k, v') \<in> set (stored_pairs m)"
    using bucket_in_stored [OF d(1) idx] by (simp add: l_def)
  then have "map_of (stored_pairs m) k = Some v'"
    using d(2) by simp
  with st have vv: "v' = v" by simp
  have "l \<in> set (v_cells (m_A m))"
    using idx d(6) by (simp add: l_def)
  with v' have "(a, (k, v')) \<in> set (all_nodes (v_cells (m_A m)))"
    by (auto simp: all_nodes_def)
  moreover have "distinct (map fst (all_nodes (v_cells (m_A m))))"
    using d(1) by (simp add: buckets_inv_def heap_ok_def)
  ultimately have nd: "node_data (v_cells (m_A m)) a = Some (k, v)"
    using vv by (simp add: node_data_def all_nodes_def)
  have "UnorderedMap_find m k = Inr (make_iterator index (Some a))"
    using d(5) rd find_do_while_found [OF a]
    by (simp add: UnorderedMap_find_def index_def [symmetric])
  moreover have "map_iterator_deref m (make_iterator index (Some a)) = Inr (k, v)"
    using nd by (simp add: map_iterator_deref_def make_iterator_def)
  ultimately show ?thesis
    by (auto simp: index_def)
qed

lemma is_prime_5: "is_prime 5"
  by (simp add: is_prime_def atLeastLessThan_nat_numeral)

lemma is_prime_7: "is_prime 7"
  by (simp add: is_prime_def atLeastLessThan_nat_numeral)

lemma rehash_while_size_max: "rehash_while (Finite 2) SIZE_MAX = Some (Inr SIZE_MAX)"
proof -
  have "2 \<le> SIZE_MAX" by (simp add: SIZE_MAX_def)
  then have "\<not> flt_less (float_of_size SIZE_MAX) (Finite 2)" by (rule float_of_size_ge_2)
  then show ?thesis by (subst rehash_while.simps) simp
qed

section \<open>The claims\<close>

subsection \<open>Claim C1\<close>

text \<open>
  Claim C1, as amended. For every map whose bucket array is in a consistent state and
  every call \<^verbatim>\<open>rehash(n)\<close> such that \<open>n\<close> and the value of
  \<^verbatim>\<open>currentSize / max_load_factor() * 2\<close>, as the loop of \<^verbatim>\<open>rehash\<close> computes it in
  \<^verbatim>\<open>float\<close>, are at most a prime \<open>q\<close> that \<^verbatim>\<open>nextPrime\<close> can reach
  (\<open>q div 2 < 2^32 - 1\<close>): the call completes, the pairs stored after it are the pairs
  stored before it (as a multiset: none is dropped, none is duplicated), each of them is
  in the chain \<open>hash(key) mod\<close> the new \<^verbatim>\<open>bucket_count\<close>, and \<^verbatim>\<open>size()\<close> is unchanged.
  Consequently, for a map from the constructor (its maximum load factor is 1.0) and
  every run of insertions, with whatever rehashes they trigger, such that the initial
  size and twice the number of insertions are at most such a prime: the run completes,
  and for every key \<open>k\<close> that was inserted \<^verbatim>\<open>find(k)\<close> returns a position whose pair is
  \<open>k\<close> with the value of the first insertion of \<open>k\<close>.
\<close>

theorem rehash_preserves_pairs:
  "(\<forall>(m :: ('k, 'v) UnorderedMap) hp n q.
      Vector_inv (m_A m) \<and> is_prime q \<and> q div 2 < 2 ^ 32 - 1 \<and> n \<le> q \<and>
      flt_le (flt_mul (flt_div (float_of_size (m_currentSize m)) (m_max_load_factor m)) (Finite 2))
        (Finite (of_nat q)) \<longrightarrow>
      (\<exists>m' hp'. UnorderedMap_rehash hp m n = Inr (m', hp') \<and>
         mset (stored_pairs m') = mset (stored_pairs m) \<and>
         (\<forall>p \<in> set (stored_pairs m).
            p \<in> set (chain_pairs (v_cells (m_A m') ! (m_h m' (fst p) mod bucket_count m')))) \<and>
         buckets_ok m' \<and> UnorderedMap_size m' = UnorderedMap_size m \<and>
         is_prime (bucket_count m') \<and> n \<le> bucket_count m')) \<and>
   (\<forall>hp n (hs :: 'k \<Rightarrow> nat) (kvs :: ('k \<times> 'v) list) q.
      is_prime q \<and> q div 2 < 2 ^ 32 - 1 \<and> n \<le> q \<and> 2 * length kvs \<le> q \<longrightarrow>
      (\<exists>m0 hp0 m hp'. UnorderedMap_n hp n hs = Inr (m0, hp0) \<and>
         insert_all hp0 m0 kvs = Inr (m, hp') \<and>
         (\<forall>k v. map_of kvs k = Some v \<longrightarrow>
            (\<exists>it. UnorderedMap_find m k = Inr it \<and> map_iterator_deref m it = Inr (k, v)))))"
proof (intro conjI allI impI)
  fix m :: "('k, 'v) UnorderedMap" and hp n q
  assume h: "Vector_inv (m_A m) \<and> is_prime q \<and> q div 2 < 2 ^ 32 - 1 \<and> n \<le> q \<and>
      flt_le (flt_mul (flt_div (float_of_size (m_currentSize m)) (m_max_load_factor m)) (Finite 2))
        (Finite (of_nat q))"
  then have h': "Vector_inv (m_A m)" "is_prime q" "q div 2 < 2 ^ 32 - 1" "n \<le> q"
    and hx: "flt_le (flt_mul (flt_div (float_of_size (m_currentSize m)) (m_max_load_factor m)) (Finite 2))
        (Finite (of_nat q))"
    by simp_all
  from rehash_ok [OF h' hx, of hp] obtain m' hp' where
    r: "UnorderedMap_rehash hp m n = Inr (m', hp')" "buckets_inv (m_h m) (m_A m') hp'"
       "is_prime (bucket_count m')" "n \<le> bucket_count m'"
       "mset (stored_pairs m') = mset (stored_pairs m)" "m_h m' = m_h m"
       "m_currentSize m' = m_currentSize m"
    by blast
  have bi: "buckets_inv (m_h m') (m_A m') hp'" using r(2,6) by simp
  have "p \<in> set (chain_pairs (v_cells (m_A m') ! (m_h m' (fst p) mod bucket_count m')))"
    if "p \<in> set (stored_pairs m)" for p
  proof -
    from that have "p \<in> set (stored_pairs m')"
      using mset_eq_setD [OF r(5)] by simp
    then show ?thesis by (rule stored_in_bucket [OF bi])
  qed
  then have inb: "\<forall>p \<in> set (stored_pairs m).
      p \<in> set (chain_pairs (v_cells (m_A m') ! (m_h m' (fst p) mod bucket_count m')))"
    by blast
  have sz: "UnorderedMap_size m' = UnorderedMap_size m"
    using r(7) by (simp add: UnorderedMap_size_def)
  show "\<exists>m' hp'. UnorderedMap_rehash hp m n = Inr (m', hp') \<and>
         mset (stored_pairs m') = mset (stored_pairs m) \<and>
         (\<forall>p \<in> set (stored_pairs m).
            p \<in> set (chain_pairs (v_cells (m_A m') ! (m_h m' (fst p) mod bucket_count m')))) \<and>
         buckets_ok m' \<and> UnorderedMap_size m' = UnorderedMap_size m \<and>
         is_prime (bucket_count m') \<and> n \<le> bucket_count m'"
    by (rule exI [of _ m'], rule exI [of _ hp'])
      (intro conjI r(1,5) inb buckets_inv_buckets_ok [OF bi] sz r(3,4))
next
  fix hp n q and hs :: "'k \<Rightarrow> nat" and kvs :: "('k \<times> 'v) list"
  assume "is_prime q \<and> q div 2 < 2 ^ 32 - 1 \<and> n \<le> q \<and> 2 * length kvs \<le> q"
  then have h: "is_prime q" "q div 2 < 2 ^ 32 - 1" "n \<le> q" "2 * length kvs \<le> q"
    by simp_all
  from UnorderedMap_n_inv [OF h(1,2,3), of hp hs] obtain m0 :: "('k, 'v) UnorderedMap" and hp0 where
    c: "UnorderedMap_n hp n hs = Inr (m0, hp0)" "map_inv m0 hp0" "stored_pairs m0 = []"
       "m_currentSize m0 = 0" "m_max_load_factor m0 = Finite 1"
    by blast
  have ml: "m_max_load_factor m0 = Finite (of_nat 1)" using c(5) by simp
  have room: "2 * (m_currentSize m0 + length kvs) \<le> q" using c(4) h(4) by simp
  have one: "(1 :: nat) \<le> 2 ^ 24" by simp
  from insert_all_inv [OF zero_less_one one h(1,2) c(2) ml room] obtain m hp' where
    i: "insert_all hp0 m0 kvs = Inr (m, hp')" "map_inv m hp'"
       "map_of (stored_pairs m) = map_of kvs ++ map_of (stored_pairs m0)"
    by blast
  have mo: "map_of (stored_pairs m) = map_of kvs" using i(3) c(3) by simp
  have "\<exists>it. UnorderedMap_find m k = Inr it \<and> map_iterator_deref m it = Inr (k, v)"
    if "map_of kvs k = Some v" for k v
    using find_stored [OF i(2), of k v] that mo by auto
  then have f: "\<forall>k v. map_of kvs k = Some v \<longrightarrow>
      (\<exists>it. UnorderedMap_find m k = Inr it \<and> map_iterator_deref m it = Inr (k, v))"
    by blast
  show "\<exists>m0 hp0 m hp'. UnorderedMap_n hp n hs = Inr (m0, hp0) \<and>
         insert_all hp0 m0 kvs = Inr (m, hp') \<and>
         (\<forall>k v. map_of kvs k = Some v \<longrightarrow>
            (\<exists>it. UnorderedMap_find m k = Inr it \<and> map_iterator_deref m it = Inr (k, v)))"
    by (rule exI [of _ m0], rule exI [of _ hp0], rule exI [of _ m], rule exI [of _ hp'])
      (intro conjI c(1) i(1) f)
qed


text \<open>
  The theorem at the map with 2 buckets and the keys 1 and 2 for \<^verbatim>\<open>rehash(4)\<close> with the
  prime 5 (the quotient is 2.0 and its double 4.0), and at the default map for the
  insertions of the keys 1, 2 and 3 with the prime 7.
\<close>

theorem rehash_preserves_pairs_witness:
  "Vector_inv (m_A example_map) \<and> is_prime 5 \<and> (5 :: nat) div 2 < 2 ^ 32 - 1 \<and> (4 :: nat) \<le> 5 \<and>
   flt_mul (flt_div (float_of_size (m_currentSize example_map)) (m_max_load_factor example_map))
     (Finite 2) = Finite 4 \<and>
   flt_le (Finite 4) (Finite (of_nat 5)) \<and>
   stored_pairs example_map = [(2, 20), (1, 10)] \<and>
   (\<exists>m' hp'. UnorderedMap_rehash 3 example_map 4 = Inr (m', hp') \<and>
      mset (stored_pairs m') = {#(2, 20), (1, 10)#} \<and> buckets_ok m' \<and>
      UnorderedMap_size m' = 2 \<and> 4 \<le> bucket_count m') \<and>
   is_prime 7 \<and> (7 :: nat) div 2 < 2 ^ 32 - 1 \<and> (1 :: nat) \<le> 7 \<and>
   2 * length [(1 :: nat, 10 :: nat), (2, 20), (3, 30)] \<le> (7 :: nat) \<and>
   (\<exists>m0 hp0 m hp'. UnorderedMap_n 0 1 (\<lambda>k :: nat. k) = Inr (m0, hp0) \<and>
      insert_all hp0 m0 [(1 :: nat, 10 :: nat), (2, 20), (3, 30)] = Inr (m, hp') \<and>
      (\<exists>it. UnorderedMap_find m 1 = Inr it \<and> map_iterator_deref m it = Inr (1, 10)) \<and>
      (\<exists>it. UnorderedMap_find m 2 = Inr it \<and> map_iterator_deref m it = Inr (2, 20)) \<and>
      (\<exists>it. UnorderedMap_find m 3 = Inr it \<and> map_iterator_deref m it = Inr (3, 30)))"
proof -
  have x: "flt_mul (flt_div (float_of_size (m_currentSize example_map)) (m_max_load_factor example_map))
     (Finite 2) = Finite 4"
    by (simp add: example_map_def float_of_size_2 flt_div_Finite round32_2 flt_mul_def
        flt_is_inf_def flt_is_zero_def round32_4)
  have le: "flt_le (Finite 4) (Finite (of_nat 5))"
    by (simp add: flt_cmp_Finite)
  have a: "Vector_inv (m_A example_map) \<and> is_prime 5 \<and> (5 :: nat) div 2 < 2 ^ 32 - 1 \<and> (4 :: nat) \<le> 5 \<and>
      flt_le (flt_mul (flt_div (float_of_size (m_currentSize example_map))
        (m_max_load_factor example_map)) (Finite 2)) (Finite (of_nat 5))"
    unfolding x using le by (simp add: example_map_def Vector_inv_def is_prime_5)
  then have a': "Vector_inv (m_A example_map) \<and> is_prime 5 \<and> (5 :: nat) div 2 < 2 ^ 32 - 1 \<and> (4 :: nat) \<le> 5"
    by simp
  have sp: "stored_pairs example_map = [(2, 20), (1, 10)]"
    by (simp add: example_map_def stored_pairs_def live_buckets_def bucket_count_def Vector_size_def
        chain_pairs_def)
  have sz: "UnorderedMap_size example_map = 2"
    by (simp add: example_map_def UnorderedMap_size_def)
  have b: "is_prime 7 \<and> (7 :: nat) div 2 < 2 ^ 32 - 1 \<and> (1 :: nat) \<le> 7 \<and>
      2 * length [(1 :: nat, 10 :: nat), (2, 20), (3, 30)] \<le> (7 :: nat)"
    by (simp add: is_prime_7)
  note inst = rehash_preserves_pairs [where ?'k = nat and ?'v = nat]
  from inst [THEN conjunct1, rule_format, OF a, of 3] obtain m' hp' where
    r: "UnorderedMap_rehash 3 example_map 4 = Inr (m', hp')"
       "mset (stored_pairs m') = mset (stored_pairs example_map)" "buckets_ok m'"
       "UnorderedMap_size m' = UnorderedMap_size example_map" "4 \<le> bucket_count m'"
    by blast
  have ra: "\<exists>m' hp'. UnorderedMap_rehash 3 example_map 4 = Inr (m', hp') \<and>
      mset (stored_pairs m') = {#(2, 20), (1, 10)#} \<and> buckets_ok m' \<and>
      UnorderedMap_size m' = 2 \<and> 4 \<le> bucket_count m'"
    using r sp sz by auto
  from inst [THEN conjunct2, rule_format, OF b, of 0 "\<lambda>k. k"] obtain m0 hp0 m hp1 where
    i: "UnorderedMap_n 0 1 (\<lambda>k :: nat. k) = Inr (m0, hp0)"
       "insert_all hp0 m0 [(1 :: nat, 10 :: nat), (2, 20), (3, 30)] = Inr (m, hp1)"
       "\<forall>k v. map_of [(1 :: nat, 10 :: nat), (2, 20), (3, 30)] k = Some v \<longrightarrow>
          (\<exists>it. UnorderedMap_find m k = Inr it \<and> map_iterator_deref m it = Inr (k, v))"
    by blast
  have f: "\<exists>it. UnorderedMap_find m 1 = Inr it \<and> map_iterator_deref m it = Inr (1, 10)"
      "\<exists>it. UnorderedMap_find m 2 = Inr it \<and> map_iterator_deref m it = Inr (2, 20)"
      "\<exists>it. UnorderedMap_find m 3 = Inr it \<and> map_iterator_deref m it = Inr (3, 30)"
    using i(3) by simp_all
  have rb: "\<exists>m0 hp0 m hp'. UnorderedMap_n 0 1 (\<lambda>k :: nat. k) = Inr (m0, hp0) \<and>
      insert_all hp0 m0 [(1 :: nat, 10 :: nat), (2, 20), (3, 30)] = Inr (m, hp') \<and>
      (\<exists>it. UnorderedMap_find m 1 = Inr it \<and> map_iterator_deref m it = Inr (1, 10)) \<and>
      (\<exists>it. UnorderedMap_find m 2 = Inr it \<and> map_iterator_deref m it = Inr (2, 20)) \<and>
      (\<exists>it. UnorderedMap_find m 3 = Inr it \<and> map_iterator_deref m it = Inr (3, 30))"
    by (rule exI [of _ m0], rule exI [of _ hp0], rule exI [of _ m], rule exI [of _ hp1])
      (intro conjI i(1,2) f)
  from a' x le sp ra b rb show ?thesis
    by blast
qed


text \<open>
  The claim as stated, for every call \<^verbatim>\<open>rehash(n)\<close>, fails at the largest \<^verbatim>\<open>size_t\<close>:
  \<^verbatim>\<open>nextPrime\<close> wraps and returns 0, the new bucket array is empty, and the first pair
  that is moved computes \<^verbatim>\<open>h(itr->first) % temp.size()\<close> with \<^verbatim>\<open>temp.size()\<close> zero.
\<close>

theorem rehash_size_max_counterexample:
  "UnorderedMap_rehash 3 example_map SIZE_MAX = Inl DivByZero \<and>
   stored_pairs example_map = [(2, 20), (1, 10)] \<and> Vector_inv (m_A example_map)"
proof -
  have np: "nextPrime SIZE_MAX = Inr 0"
    by (simp add: nextPrime_def size_incr_def unsigned_incr_def SIZE_MAX_def)
  have nz: "SIZE_MAX \<noteq> 0" by (simp add: SIZE_MAX_def)
  have x: "flt_div (float_of_size (m_currentSize example_map)) (m_max_load_factor example_map) = Finite 2"
    by (simp add: example_map_def float_of_size_2 flt_div_Finite round32_2)
  have r: "UnorderedMap_rehash 3 example_map SIZE_MAX = Inl DivByZero"
    apply (simp only: UnorderedMap_rehash_def Let_def nz if_False x rehash_while_size_max
        option.case bind_err_simps np)
    apply (simp add: Vector_n_def example_map_def Vector_size_def Vector_index_def upt_rec)
    done
  moreover have "stored_pairs example_map = [(2, 20), (1, 10)]"
    by (simp add: example_map_def stored_pairs_def live_buckets_def bucket_count_def Vector_size_def
        chain_pairs_def)
  moreover have "Vector_inv (m_A example_map)"
    by (simp add: example_map_def Vector_inv_def)
  ultimately show ?thesis by blast
qed

subsection \<open>Claim C2\<close>

text \<open>
  Claim C2 says that \<^verbatim>\<open>find(k)\<close> returns \<^verbatim>\<open>end()\<close> for every key that is not stored,
  and that it finds an empty chain empty before it reads through a position. The
  \<^verbatim>\<open>find\<close> of lines 346-357 does neither. On a map as the default constructor leaves it
  (every chain empty) the \<^verbatim>\<open>do ... while\<close> loop reads \<^verbatim>\<open>itr->first\<close> through the null
  head of the chain, for every key. With the hash \<open>\<lambda>k. k\<close> and the key 1 stored among 2
  buckets, \<^verbatim>\<open>find(3)\<close> runs to the end of the chain of bucket 1 and returns the position
  (bucket 1, null), which is not \<^verbatim>\<open>end()\<close>, the position (bucket 2, null).
\<close>

theorem find_absent_key:
  "bind_err (UnorderedMap_default hp hs) (\<lambda>(m, hp1). UnorderedMap_find m k) = Inl NullDeref \<and>
   bind_err (UnorderedMap_default hp (\<lambda>k :: nat. k)) (\<lambda>(m, hp1).
     bind_err (UnorderedMap_insert hp1 m (1, v)) (\<lambda>(r, m', hp2).
       bind_err (UnorderedMap_find m' 3) (\<lambda>it.
         Inr (it, UnorderedMap_end m', it = UnorderedMap_end m'))))
   = Inr (\<lparr>it_bucket = 1, it_pos = None\<rparr>, \<lparr>it_bucket = 2, it_pos = None\<rparr>, False)"
proof -
  have "hs k mod 2 = 0 \<or> hs k mod 2 = 1" by arith
  then have "bind_err (UnorderedMap_default hp hs) (\<lambda>(m, hp1). UnorderedMap_find m k) = Inl NullDeref"
    by (auto simp: UnorderedMap_default_eq UnorderedMap_find_def bucket_count_def
      Vector_size_def Vector_index_def ForwardList_default_def)
  moreover have "bind_err (UnorderedMap_default hp (\<lambda>k :: nat. k)) (\<lambda>(m, hp1).
     bind_err (UnorderedMap_insert hp1 m (1, v)) (\<lambda>(r, m', hp2).
       bind_err (UnorderedMap_find m' 3) (\<lambda>it.
         Inr (it, UnorderedMap_end m', it = UnorderedMap_end m'))))
   = Inr (\<lparr>it_bucket = 1, it_pos = None\<rparr>, \<lparr>it_bucket = 2, it_pos = None\<rparr>, False)"
    apply (simp only: UnorderedMap_default_eq bind_err_simps prod.case insert_first_default)
    apply (simp add: UnorderedMap_find_def bucket_count_def Vector_size_def Vector_index_def
        UnorderedMap_end_def make_iterator_def head_def)
    done
  ultimately show ?thesis ..
qed

subsection \<open>Claim C3\<close>

text \<open>
  Claim C3 says that \<^verbatim>\<open>insert\<close> of a pair whose key is not stored returns the position
  of the new pair. \<^verbatim>\<open>insert\<close> (lines 270-290) takes \<open>itr\<close> from the head of the chain
  before it pushes the new node and returns that \<open>itr\<close>. After the first insertion into a
  map from the default constructor, for every hash, key and value: the flag is true, the
  new node is the head of its chain at the address the allocator handed out, and the
  position returned is null, so that reading through it is a read through a null
  pointer. With the hash \<open>\<lambda>k. k\<close>, after the insertions of \<open>(1, 10)\<close> and \<open>(3, 30)\<close>
  into the same chain of 2 buckets: the second insertion reports true, both pairs are
  stored, and the position it returns is the one of the pair \<open>(1, 10)\<close>.
\<close>

theorem insert_returns_stale_position:
  "bind_err (UnorderedMap_default hp hs) (\<lambda>(m, hp1).
     bind_err (UnorderedMap_insert hp1 m (k, v)) (\<lambda>((it, inserted), m', hp2).
       Inr (it_pos it, inserted, ForwardList_begin (v_cells (m_A m') ! it_bucket it),
            map_iterator_deref m' it)))
   = Inr (None, True, Some (Suc hp), Inl NullDeref) \<and>
   bind_err (UnorderedMap_default 0 (\<lambda>k :: nat. k)) (\<lambda>(m, hp1).
     bind_err (UnorderedMap_insert hp1 m (1, 10 :: nat)) (\<lambda>(r1, m1, hp2).
       bind_err (UnorderedMap_insert hp2 m1 (3, 30)) (\<lambda>((it, inserted), m2, hp3).
         Inr (inserted, stored_pairs m2, map_iterator_deref m2 it))))
   = Inr (True, [(3, 30), (1, 10)], Inr (1, 10))"
proof -
  have i: "hs k mod 2 = 0 \<or> hs k mod 2 = 1" by arith
  have "bind_err (UnorderedMap_default hp hs) (\<lambda>(m, hp1).
     bind_err (UnorderedMap_insert hp1 m (k, v)) (\<lambda>((it, inserted), m', hp2).
       Inr (it_pos it, inserted, ForwardList_begin (v_cells (m_A m') ! it_bucket it),
            map_iterator_deref m' it)))
   = Inr (None, True, Some (Suc hp), Inl NullDeref)"
    apply (simp only: UnorderedMap_default_eq bind_err_simps prod.case insert_first_default)
    using i apply (auto simp: map_iterator_deref_def ForwardList_begin_def head_def)
    done
  moreover have "bind_err (UnorderedMap_default 0 (\<lambda>k :: nat. k)) (\<lambda>(m, hp1).
     bind_err (UnorderedMap_insert hp1 m (1, 10 :: nat)) (\<lambda>(r1, m1, hp2).
       bind_err (UnorderedMap_insert hp2 m1 (3, 30)) (\<lambda>((it, inserted), m2, hp3).
         Inr (inserted, stored_pairs m2, map_iterator_deref m2 it))))
   = Inr (True, [(3, 30), (1, 10)], Inr (1, 10))"
    apply (simp only: UnorderedMap_default_eq bind_err_simps prod.case insert_first_default)
    apply (subst insert_after_grow [OF grow_after_first])
      apply (simp add: Vector_inv_def)
     apply (simp add: bucket_count_def Vector_size_def)
    apply (simp add: bucket_count_def Vector_size_def pushed_def head_def map_iterator_deref_def
        node_data_def stored_pairs_def live_buckets_def chain_pairs_def ForwardList_default_def
        make_iterator_def)
    done
  ultimately show ?thesis ..
qed

subsection \<open>Claim C4\<close>






subsection \<open>Claim C5\<close>

text \<open>
  Claim C5 says that a traversal from \<^verbatim>\<open>begin()\<close> visits exactly the live pairs and
  skips an empty bucket at index 0. \<^verbatim>\<open>begin()\<close> (line 106) is the head of chain 0
  whatever it is. With the hash \<open>\<lambda>k. k\<close> and the key 1 stored among 2 buckets, chain 0 is
  empty: \<^verbatim>\<open>begin()\<close> is the position (bucket 0, null), which is not \<^verbatim>\<open>end()\<close>; reading
  \<^verbatim>\<open>*it\<close> and stepping \<^verbatim>\<open>++it\<close> both go through the null pointer, and the traversal
  faults before it visits the stored pair.
\<close>

theorem begin_empty_first_bucket:
  "bind_err (UnorderedMap_default hp (\<lambda>k :: nat. k)) (\<lambda>(m, hp1).
     bind_err (UnorderedMap_insert hp1 m (1, v)) (\<lambda>(r, m', hp2).
       bind_err (UnorderedMap_begin m') (\<lambda>it.
         Inr (stored_pairs m', it, it = UnorderedMap_end m', map_iterator_deref m' it,
              map_iterator_incr m' it, traverse (Suc fuel) m' it))))
   = Inr ([(1, v)], \<lparr>it_bucket = 0, it_pos = None\<rparr>, False, Inl NullDeref, Inl NullDeref,
          Inl NullDeref)"
  apply (simp only: UnorderedMap_default_eq bind_err_simps prod.case insert_first_default)
  apply (simp add: UnorderedMap_begin_def Vector_index_def
      ForwardList_default_def ForwardList_begin_def head_def make_iterator_def UnorderedMap_end_def
      bucket_count_def Vector_size_def map_iterator_deref_def map_iterator_incr_def
      stored_pairs_def live_buckets_def chain_pairs_def)
  done

subsection \<open>Claim C6\<close>

text \<open>
  Claim C6 says that \<^verbatim>\<open>bucket_count\<close> is at least 1 and prime after every public
  operation, \<^verbatim>\<open>clear\<close> among them. \<^verbatim>\<open>clear()\<close> (line 116) is \<^verbatim>\<open>A.clear()\<close>, which sets the
  size of the bucket array to 0 (Vector.h, line 77): after \<^verbatim>\<open>clear()\<close> on a map from the
  default constructor \<^verbatim>\<open>bucket_count()\<close> is 0, and \<^verbatim>\<open>find\<close> and \<^verbatim>\<open>count\<close> compute a
  remainder modulo 0.
\<close>

theorem clear_bucket_count:
  "bind_err (UnorderedMap_default hp hs) (\<lambda>(m, hp1).
     Inr (bucket_count (UnorderedMap_clear m), UnorderedMap_find (UnorderedMap_clear m) k,
          UnorderedMap_count (UnorderedMap_clear m) k))
   = Inr (0, Inl DivByZero, Inl DivByZero)"
  by (simp add: UnorderedMap_default_eq bucket_count_def UnorderedMap_clear_def Vector_clear_def
      Vector_size_def UnorderedMap_find_def UnorderedMap_count_def UnorderedMap_find_const_def)

subsection \<open>Claim C7\<close>

text \<open>
  Claim C7 says that \<^verbatim>\<open>at(i)\<close> raises the out-of-range error exactly when \<open>i\<close> is not
  below \<^verbatim>\<open>size()\<close>, so for every index on an empty Vector. The test of \<^verbatim>\<open>at\<close>
  (line 212) is \<^verbatim>\<open>index > currentSize - 1\<close>, and on an empty Vector \<^verbatim>\<open>currentSize - 1\<close>
  wraps to the largest \<^verbatim>\<open>size_t\<close>: no index raises the error. On a default-constructed
  Vector every index reads through the null buffer pointer; on a Vector of three elements
  after \<^verbatim>\<open>clear()\<close>, \<^verbatim>\<open>at(1)\<close> returns the element that was at position 1.
\<close>

theorem at_empty_vector:
  "Vector_at (Vector_default :: 'a Vector) (index mod 2 ^ 64) = Inl NullDeref \<and>
   Vector_at (Vector_clear (fst (Vector_n hp 3 x))) 1 = Inr x"
proof -
  have "index mod 2 ^ 64 < (2 ^ 64 :: nat)" by simp
  then have "\<not> index mod 2 ^ 64 > size_decr 0"
    by (simp add: size_decr_0)
  then have "Vector_at (Vector_default :: 'a Vector) (index mod 2 ^ 64) = Inl NullDeref"
    by (simp add: Vector_at_def Vector_default_def Vector_index_def)
  moreover have "Vector_at (Vector_clear (fst (Vector_n hp 3 x))) 1 = Inr x"
    by (simp add: Vector_at_def Vector_clear_def Vector_n_def alloc_def Vector_index_def size_decr_0
        numeral_3_eq_3)
  ultimately show ?thesis ..
qed

subsection \<open>Claim C8\<close>

text \<open>
  Claim C8, as amended: for every input \<open>n\<close> that is at most some prime \<open>p\<close> whose half
  is below the largest value of the 32-bit counter of the trial division
  (\<open>p div 2 < 2^32 - 1\<close>), \<^verbatim>\<open>nextPrime(n)\<close> returns the smallest prime that is at
  least \<open>n\<close>; in particular it maps 0 to 2, 1 to 2, 2 to 2, 3 to 3, 4 to 5, 10 to 11 and
  25 to 29.
\<close>

theorem nextPrime_smallest_prime:
  "(\<forall>n p. is_prime p \<and> n \<le> p \<and> p div 2 < 2 ^ 32 - 1 \<longrightarrow>
      (\<exists>q. nextPrime n = Inr q \<and> is_prime q \<and> n \<le> q \<and>
           (\<forall>r. is_prime r \<and> n \<le> r \<longrightarrow> q \<le> r))) \<and>
   nextPrime 0 = Inr 2 \<and> nextPrime 1 = Inr 2 \<and> nextPrime 2 = Inr 2 \<and> nextPrime 3 = Inr 3 \<and>
   nextPrime 4 = Inr 5 \<and> nextPrime 10 = Inr 11 \<and> nextPrime 25 = Inr 29"
proof -
  have "\<exists>q. nextPrime n = Inr q \<and> is_prime q \<and> n \<le> q \<and> (\<forall>r. is_prime r \<and> n \<le> r \<longrightarrow> q \<le> r)"
    if "is_prime p \<and> n \<le> p \<and> p div 2 < 2 ^ 32 - 1" for n p
    using nextPrime_in_range [of p n] that by blast
  moreover have "nextPrime 0 = Inr 2 \<and> nextPrime 1 = Inr 2 \<and> nextPrime 2 = Inr 2 \<and>
      nextPrime 3 = Inr 3 \<and> nextPrime 4 = Inr 5 \<and> nextPrime 10 = Inr 11 \<and> nextPrime 25 = Inr 29"
    by (simp add: nextPrime_def size_incr_def unsigned_incr_def)
  ultimately show ?thesis by blast
qed

text \<open>
  The theorem at \<open>n = 26\<close> with the prime 31 above it: the result is 29, the candidates
  26, 27 and 28 are not prime.
\<close>

theorem nextPrime_smallest_prime_witness:
  "is_prime 31 \<and> (26 :: nat) \<le> 31 \<and> (31 :: nat) div 2 < 2 ^ 32 - 1 \<and> nextPrime 26 = Inr 29 \<and>
   is_prime 29 \<and> \<not> is_prime 26 \<and> \<not> is_prime 27 \<and> \<not> is_prime 28"
proof -
  have p: "is_prime 31 \<and> (26 :: nat) \<le> 31 \<and> (31 :: nat) div 2 < 2 ^ 32 - 1"
    by (simp add: is_prime_def atLeastLessThan_nat_numeral)
  have np: "\<not> is_prime 26 \<and> \<not> is_prime 27 \<and> \<not> is_prime 28" "is_prime 29"
    by (simp_all add: is_prime_def atLeastLessThan_nat_numeral)
  from nextPrime_smallest_prime [THEN conjunct1, rule_format, OF p]
  obtain q where q: "nextPrime 26 = Inr q" "is_prime q" "26 \<le> q"
    "\<forall>r. is_prime r \<and> 26 \<le> r \<longrightarrow> q \<le> r" by blast
  from q(4) np(2) have "q \<le> 29" by simp
  with q(3) have "q = 26 \<or> q = 27 \<or> q = 28 \<or> q = 29" by arith
  with q(2) np(1) have "q = 29" by auto
  with q(1) p np show ?thesis by simp
qed

text \<open>
  The claim as stated, for every input, fails at the largest \<^verbatim>\<open>size_t\<close>: the candidate
  \<open>2^64 - 1\<close> is divisible by 3, \<^verbatim>\<open>num++\<close> wraps to 0, the trial division of 0 finds no
  divisor, and \<^verbatim>\<open>nextPrime\<close> returns 0, which is neither prime nor at least the input.
\<close>

theorem nextPrime_size_max_counterexample:
  "nextPrime SIZE_MAX = Inr 0 \<and> \<not> is_prime 0 \<and> \<not> SIZE_MAX \<le> 0"
  by (simp add: nextPrime_def size_incr_def unsigned_incr_def SIZE_MAX_def is_prime_def)

subsection \<open>Claim C9\<close>

text \<open>
  Claim C9 says that \<^verbatim>\<open>remove(v)\<close> unlinks every node equal to \<open>v\<close>, a matching head
  included. The loop of \<^verbatim>\<open>remove\<close> (lines 250-257) only ever tests the node behind the
  iterator, which starts at the head: for every chain whose head holds \<open>v\<close>, the head is
  still the first node after \<^verbatim>\<open>remove(v)\<close> (the nodes behind it that hold \<open>v\<close> are
  gone, the others keep their order). On the empty list the loop condition reads
  \<^verbatim>\<open>itr.current->next\<close> through the null head.
\<close>

theorem remove_keeps_head:
  "map_sum id l_nodes (ForwardList_remove val \<lparr>l_nodes = (a, val) # rest, l_size = sz\<rparr>)
     = Inr ((a, val) # filter (\<lambda>n. snd n \<noteq> val) rest) \<and>
   ForwardList_remove val ForwardList_default = Inl NullDeref"
  using remove_while_nodes [of val "(a, val)" rest sz]
  by (auto simp: ForwardList_remove_def ForwardList_default_def split: prod.splits)

subsection \<open>Claim C10\<close>




end
